theory Spec2Isabelle
  imports Complex_Main "HOL-Library.Multiset"
begin

text \<open>
  A shallow embedding of the spot-it generator: the plane constructor
  (\<open>generateCards\<close>, \<open>verifyCards\<close>), the two layout generators
  (\<open>generateAllLayouts\<close>, grid and radial), the artwork batch orchestrator
  (\<open>generateImageWithRateLimit\<close>, \<open>generateAllImages\<close>) and the admission gate
  (\<open>RateLimiter\<close>).

  JavaScript numbers that the code uses as counters and indices are natural numbers
  here: every value involved stays far below \<open>2 ^ 53\<close>, where the arithmetic of
  doubles on integers is exact. Coordinates are real numbers: the rounding of
  floating-point arithmetic is not modelled.
\<close>

section \<open>Plane constructor\<close>

text \<open>\<open>Array.prototype.push\<close>, returning the extended array.\<close>

definition push :: "'a list \<Rightarrow> 'a \<Rightarrow> 'a list" where
  "push xs x = xs @ [x]"

text \<open>
  \<open>generateCards\<close>, loop by loop: a counting loop \<open>for (let i = 0; i < n; i++)\<close> is a
  \<open>fold\<close> over \<open>[0..<n]\<close>, and every \<open>let\<close> rebinds the array the loop has pushed to.
  The remainder \<open>%\<close> is only evaluated inside a loop over \<open>[0..<n]\<close>, hence with
  \<open>n > 0\<close> and non-negative operands, where it is \<open>mod\<close>.
\<close>

definition generateCards :: "nat \<Rightarrow> nat list list" where
  "generateCards n =
     (let cards = [];
          firstCard = fold (\<lambda>i card. push card i) [0..<n + 1] [];
          cards = push cards firstCard;
          cards = fold (\<lambda>i cards.
                    let card = fold (\<lambda>j card. push card (n + 1 + i * n + j)) [0..<n] [0]
                    in push cards card) [0..<n] cards;
          cards = fold (\<lambda>i cards.
                    fold (\<lambda>j cards.
                      let card = fold (\<lambda>k card.
                                   let symbolIndex = n + 1 + k * n + ((i * k + j) mod n)
                                   in push card symbolIndex) [0..<n] [i + 1]
                      in push cards card) [0..<n] cards) [0..<n] cards
      in cards)"

definition getTotalSymbols :: "nat \<Rightarrow> nat" where
  "getTotalSymbols n = n * n + n + 1"

definition getSymbolsPerCard :: "nat \<Rightarrow> nat" where
  "getSymbolsPerCard n = n + 1"

text \<open>\<open>Array.prototype.includes\<close> on a card.\<close>

fun includes_elem :: "nat list \<Rightarrow> nat \<Rightarrow> bool" where
  "includes_elem [] s = False"
| "includes_elem (x # xs) s = (if x = s then True else includes_elem xs s)"

text \<open>\<open>cards[i].filter(s => cards[j].includes(s))\<close>.\<close>

definition shared :: "nat list \<Rightarrow> nat list \<Rightarrow> nat list" where
  "shared c d = filter (\<lambda>s. includes_elem d s) c"

text \<open>The inner loop of \<open>verifyCards\<close>: \<open>c\<close> is \<open>cards[i]\<close>, the list holds the cards
  \<open>cards[j]\<close> with \<open>j > i\<close>; the first pair that does not share exactly one symbol
  makes the function return \<open>false\<close>.\<close>

fun verifyRow :: "nat list \<Rightarrow> nat list list \<Rightarrow> bool" where
  "verifyRow c [] = True"
| "verifyRow c (d # ds) =
     (if length (shared c d) \<noteq> 1 then False else verifyRow c ds)"

fun verifyCards :: "nat list list \<Rightarrow> bool" where
  "verifyCards [] = True"
| "verifyCards (c # cs) = (if verifyRow c cs then verifyCards cs else False)"

text \<open>The card sequence as the specification words it: card 0, then the \<open>n\<close> cards
  through symbol 0 in increasing \<open>i\<close>, then the \<open>n * n\<close> cards for \<open>(i, j)\<close> in
  row-major order.\<close>

definition cards_spec :: "nat \<Rightarrow> nat list list" where
  "cards_spec n =
     [0..<n + 1]
     # map (\<lambda>i. 0 # map (\<lambda>j. n + 1 + i * n + j) [0..<n]) [0..<n]
     @ concat (map (\<lambda>i. map (\<lambda>j. (i + 1) # map (\<lambda>k. n + 1 + k * n + ((i * k + j) mod n)) [0..<n])
                             [0..<n]) [0..<n])"

section \<open>Layout generator\<close>

text \<open>
  What a JavaScript function can read from its environment besides its arguments:
  the library functions \<open>Math.sin\<close> and \<open>Math.cos\<close> (implementation-approximated, hence
  parameters rather than the real sine and cosine), the wall clock \<open>Date.now()\<close> and
  the entropy source \<open>Math.random()\<close>, as the sequence of values it would return.
\<close>

record js_env =
  math_sin :: "real \<Rightarrow> real"
  math_cos :: "real \<Rightarrow> real"
  date_now :: real
  math_random :: "nat \<Rightarrow> real"

text \<open>A placement \<open>{ x, y, size, rotation }\<close>; the fields are prefixed, since \<open>x\<close>, \<open>y\<close>
  and \<open>size\<close> are wanted as variable names or taken by HOL.\<close>

record placement =
  pos_x :: real
  pos_y :: real
  pos_size :: real
  pos_rotation :: real

text \<open>The destructuring swap \<open>[a[i], a[j]] = [a[j], a[i]]\<close>: both reads happen first.\<close>

definition swap :: "'a list \<Rightarrow> nat \<Rightarrow> nat \<Rightarrow> 'a list" where
  "swap a i j = a[i := a ! j, j := a ! i]"

subsection \<open>Grid strategy (\<open>src/algorithm.js\<close>)\<close>

definition seededRandom :: "js_env \<Rightarrow> real \<Rightarrow> real" where
  "seededRandom env seed =
     (let x = math_sin env (seed * 9999) * 10000
      in x - of_int \<lfloor>x\<rfloor>)"

text \<open>The loop \<open>for (let i = shuffled.length - 1; i > 0; i--)\<close> visits
  \<open>length - 1, \<dots>, 1\<close>. The index \<open>j\<close> never leaves \<open>0..i\<close> (lemma \<open>shuffle_index_le\<close>), so
  the swap never reads or writes outside the array.\<close>

definition seededShuffle :: "js_env \<Rightarrow> 'a list \<Rightarrow> real \<Rightarrow> 'a list" where
  "seededShuffle env array seed =
     fold (\<lambda>i shuffled.
             let j = nat \<lfloor>seededRandom env (seed + real i) * (real i + 1)\<rfloor>
             in swap shuffled i j)
          (rev [1..<length array]) array"

record grid_dims =
  cols :: nat
  rows :: nat

definition getGridDimensions :: "nat \<Rightarrow> grid_dims" where
  "getGridDimensions n =
     (if n \<le> 2 then \<lparr>cols = 2, rows = 1\<rparr>
      else if n \<le> 4 then \<lparr>cols = 2, rows = 2\<rparr>
      else if n \<le> 6 then \<lparr>cols = 3, rows = 2\<rparr>
      else if n \<le> 9 then \<lparr>cols = 3, rows = 3\<rparr>
      else \<lparr>cols = 4, rows = nat \<lceil>real n / 4\<rceil>\<rparr>)"

text \<open>The block of \<open>generateAllLayouts\<close> from \<open>getGridDimensions(symbolsPerCard)\<close> to the
  end of the loop that fills \<open>basePositions\<close>.\<close>

definition basePositions :: "nat \<Rightarrow> real \<Rightarrow> placement list" where
  "basePositions symbolsPerCard cardSize =
     (let g = getGridDimensions symbolsPerCard;
          padding = cardSize * 0.08;
          availableWidth = cardSize - padding * 2;
          availableHeight = cardSize - padding * 2;
          cellWidth = availableWidth / real (cols g);
          cellHeight = availableHeight / real (rows g);
          symbolSize = min cellWidth cellHeight * 0.85
      in fold (\<lambda>i basePositions.
                 let col = i mod cols g;
                     row = nat \<lfloor>real i / real (cols g)\<rfloor>;
                     cellX = padding + real col * cellWidth;
                     cellY = padding + real row * cellHeight;
                     x = cellX + (cellWidth - symbolSize) / 2;
                     y = cellY + (cellHeight - symbolSize) / 2
                 in push basePositions
                      \<lparr>pos_x = x, pos_y = y, pos_size = symbolSize, pos_rotation = 0\<rparr>)
              [0..<symbolsPerCard] [])"

definition generateAllLayouts :: "js_env \<Rightarrow> nat \<Rightarrow> nat \<Rightarrow> real \<Rightarrow> placement list list" where
  "generateAllLayouts env numCards symbolsPerCard cardSize =
     fold (\<lambda>cardIndex layouts.
             let shuffledPositions =
                   seededShuffle env (basePositions symbolsPerCard cardSize)
                     (real cardIndex * 137)
             in push layouts shuffledPositions)
          [0..<numCards] []"

subsection \<open>Radial strategy (the second copy of \<open>algorithm.js\<close>)\<close>

definition seededRandom_radial :: "js_env \<Rightarrow> real \<Rightarrow> real" where
  "seededRandom_radial env seed =
     (let x = math_sin env seed * 10000
      in x - of_int \<lfloor>x\<rfloor>)"

text \<open>\<open>Math.PI\<close>, the double nearest to \<open>\<pi>\<close>, to its 16 significant digits.\<close>

definition math_PI :: real where
  "math_PI = 3.141592653589793"

definition sizeCategories :: "real list" where
  "sizeCategories = [0.42, 0.38, 0.34, 0.30, 0.26, 0.22]"

text \<open>The shuffle of the size assignments of one card.\<close>

definition shuffledSizes :: "js_env \<Rightarrow> nat \<Rightarrow> real list" where
  "shuffledSizes env cardIndex =
     fold (\<lambda>i shuffledSizes.
             let swapIdx = nat \<lfloor>seededRandom_radial env (real cardIndex * 50 + real i)
                                 * (real i + 1)\<rfloor>
             in swap shuffledSizes i swapIdx)
          (rev [1..<length sizeCategories]) sizeCategories"

text \<open>The body of the loop over \<open>cardIndex\<close>: the positions of one card.\<close>

definition radialPositions :: "js_env \<Rightarrow> nat \<Rightarrow> nat \<Rightarrow> real \<Rightarrow> placement list" where
  "radialPositions env cardIndex symbolsPerCard cardSize =
     (let center = cardSize / 2;
          baseRadius = cardSize * 0.28;
          sizes = shuffledSizes env cardIndex
      in fold (\<lambda>i positions.
                 let seed = real cardIndex * 100 + real i;
                     angleOffset = seededRandom_radial env seed * 0.4 - 0.2;
                     angle = (real i / real symbolsPerCard) * math_PI * 2 + angleOffset;
                     baseSizeRatio = sizes ! (i mod length sizes);
                     sizeVariation = 1 + (seededRandom_radial env (seed + 2) * 0.15 - 0.075);
                     size = cardSize * baseSizeRatio * sizeVariation;
                     sizeInfluence = baseSizeRatio / 0.42;
                     distVariation = seededRandom_radial env (seed + 1) * 0.25 + 0.6;
                     dist = baseRadius * distVariation * (1.2 - sizeInfluence * 0.4);
                     x = center + math_cos env angle * dist - size / 2;
                     y = center + math_sin env angle * dist - size / 2;
                     rotation = seededRandom_radial env (seed + 3) * 360
                 in push positions
                      \<lparr>pos_x = x, pos_y = y, pos_size = size, pos_rotation = rotation\<rparr>)
              [0..<symbolsPerCard] [])"

definition generateAllLayouts_radial ::
  "js_env \<Rightarrow> nat \<Rightarrow> nat \<Rightarrow> real \<Rightarrow> placement list list" where
  "generateAllLayouts_radial env numCards symbolsPerCard cardSize =
     fold (\<lambda>cardIndex layouts.
             push layouts (radialPositions env cardIndex symbolsPerCard cardSize))
          [0..<numCards] []"

text \<open>A placement's square \<open>[x, x + size] \<times> [y, y + size]\<close> lies in the canvas
  \<open>[0, cardSize] \<times> [0, cardSize]\<close>.\<close>

definition in_canvas :: "real \<Rightarrow> placement \<Rightarrow> bool" where
  "in_canvas cardSize p \<longleftrightarrow>
     0 \<le> pos_x p \<and> pos_x p + pos_size p \<le> cardSize \<and>
     0 \<le> pos_y p \<and> pos_y p + pos_size p \<le> cardSize"

section \<open>Artwork batch orchestrator\<close>

text \<open>
  The image provider is external. \<open>provider description index attempt\<close> is the outcome
  of the call \<open>generateImage(description, index)\<close> made on the given attempt for that
  symbol: \<open>Inl message\<close> when it throws an \<open>Error\<close> with that message, \<open>Inr data\<close> when it
  returns the image data.
\<close>

type_synonym provider = "string \<Rightarrow> nat \<Rightarrow> nat \<Rightarrow> string + string"

text \<open>\<open>String.prototype.includes\<close>.\<close>

fun starts_with :: "string \<Rightarrow> string \<Rightarrow> bool" where
  "starts_with hay [] = True"
| "starts_with [] (c # cs) = False"
| "starts_with (h # hs) (c # cs) = (h = c \<and> starts_with hs cs)"

fun str_includes :: "string \<Rightarrow> string \<Rightarrow> bool" where
  "str_includes [] needle = (needle = [])"
| "str_includes (h # hs) needle = (starts_with (h # hs) needle \<or> str_includes hs needle)"

definition isRateLimitError :: "string \<Rightarrow> bool" where
  "isRateLimitError message \<longleftrightarrow>
     str_includes message ''rate'' \<or> str_includes message ''429''
     \<or> str_includes message ''too many''"

text \<open>
  The retry loop of \<open>generateImageWithRateLimit\<close>. \<open>lastError\<close> starts undefined
  (\<open>None\<close>); \<open>waited\<close> collects the back-off timeouts the loop awaits, in milliseconds.
  The admission gate around the provider call (\<open>acquire\<close>, and \<open>release\<close> in the
  \<open>finally\<close>) throws nothing and does not touch the result; it is modelled on its own
  below (\<open>RateLimiter\<close>), where a waiting caller is admitted once a slot is free and the
  last minute's call starts have aged out (lemma \<open>gate_admits\<close>). Here every provider
  call is taken to settle and every \<open>acquire\<close> to return.
\<close>

record retry_state =
  lastError :: "string option"
  waited :: "nat list"

function retry_loop ::
  "(nat \<Rightarrow> string + string) \<Rightarrow> nat \<Rightarrow> nat \<Rightarrow> retry_state \<Rightarrow> (string option + string) \<times> nat list"
where
  "retry_loop generateImage maxRetries attempt st =
     (if attempt < maxRetries then
        (case generateImage attempt of
           Inr result \<Rightarrow> (Inr result, waited st)
         | Inl message \<Rightarrow>
             let waitTime =
                   (if isRateLimitError message \<and> attempt < maxRetries - 1
                      then [(attempt + 1) * 10000]
                    else if attempt < maxRetries - 1 then [2000]
                    else [])
             in retry_loop generateImage maxRetries (attempt + 1)
                  \<lparr>lastError = Some message, waited = waited st @ waitTime\<rparr>)
      else (Inl (lastError st), waited st))"
  by pat_completeness auto
termination
  by (relation "measure (\<lambda>(generateImage, maxRetries, attempt, st). maxRetries - attempt)") auto

definition generateImageWithRateLimit ::
  "provider \<Rightarrow> string \<Rightarrow> nat \<Rightarrow> nat \<Rightarrow> (string option + string) \<times> nat list" where
  "generateImageWithRateLimit provider description index maxRetries =
     retry_loop (provider description index) maxRetries 0 \<lparr>lastError = None, waited = []\<rparr>"

text \<open>
  The mutable state of one \<open>generateAllImages\<close> call: the result array (\<open>None\<close> is
  \<open>null\<close>), the list of failures \<open>{index, description, error}\<close>, the counter of
  completed items, and the calls \<open>onImageComplete(index, imageData, error)\<close> made so far.
\<close>

datatype item_event = ItemComplete nat "string option" "string option"

record gen_state =
  images :: "string option list"
  failed :: "(nat \<times> string \<times> string) list"
  completed :: nat
  itemCalls :: "item_event list"

text \<open>
  The body of the \<open>async (desc, j) => { \<dots> }\<close> callback for one item. \<open>aborted\<close> is what
  \<open>signal?.aborted\<close> reads when the item is dispatched. A thrown value without a
  \<open>message\<close> (\<open>lastError\<close> still undefined) would make the \<open>catch\<close> block itself throw a
  \<open>TypeError\<close>; with three attempts this does not happen (lemma \<open>three_attempts\<close>).
  \<open>cacheImage\<close> catches its own exceptions and writes to browser storage only.
\<close>

definition process_item :: "provider \<Rightarrow> bool \<Rightarrow> gen_state \<Rightarrow> nat \<Rightarrow> string \<Rightarrow> string + gen_state" where
  "process_item provider aborted st index desc =
     (if aborted then Inr st
      else case fst (generateImageWithRateLimit provider desc index 3) of
             Inr imageData \<Rightarrow>
               Inr (st\<lparr>images := (images st)[index := Some imageData],
                       completed := completed st + 1,
                       itemCalls := push (itemCalls st) (ItemComplete index (Some imageData) None)\<rparr>)
           | Inl (Some message) \<Rightarrow>
               Inr (st\<lparr>failed := push (failed st) (index, desc, message),
                       completed := completed st + 1,
                       itemCalls := push (itemCalls st) (ItemComplete index None (Some message))\<rparr>)
           | Inl None \<Rightarrow> Inl ''TypeError'')"

text \<open>
  Where \<open>generateAllImages\<close> reads \<open>signal?.aborted\<close>: at the start of the chunk whose
  loop variable is \<open>i\<close> (\<open>ChunkStart i\<close>), and in the callback of the item with a given
  index, before anything else is done for it (\<open>Dispatch index\<close>). Each of these reads
  happens at most once in a call, so the abort signal is an input of the model: the
  value every read finds (constantly \<open>False\<close> for a missing signal). Nothing is assumed
  about when the caller aborts.
\<close>

datatype read_point = ChunkStart nat | Dispatch nat

text \<open>
  \<open>batch.map(\<dots>)\<close> followed by \<open>await Promise.all(batchPromises)\<close>. Each item writes its
  own slot only. The items are run here in index order; the program appends to
  \<open>failed\<close> and calls \<open>onImageComplete\<close> in the order in which the items complete, so of
  these two lists only what does not depend on their order is stated below, and the
  result array, the counter and those facts are the same in every order of completion
  (lemma \<open>process_batch_order_irrelevant\<close>).
\<close>

fun process_batch ::
  "provider \<Rightarrow> (read_point \<Rightarrow> bool) \<Rightarrow> (nat \<times> string) list \<Rightarrow> gen_state \<Rightarrow> string + gen_state"
where
  "process_batch provider signal [] st = Inr st"
| "process_batch provider signal ((index, desc) # rest) st =
     (case process_item provider (signal (Dispatch index)) st index desc of
        Inl e \<Rightarrow> Inl e
      | Inr st' \<Rightarrow> process_batch provider signal rest st')"

definition batchSize :: nat where
  "batchSize = 10"

text \<open>
  The loop \<open>for (let i = 0; i < descriptions.length; i += batchSize)\<close>. The result is
  the error thrown, if any, and the state the call leaves behind. The callbacks of the
  caller (\<open>onProgress\<close>, \<open>onImageComplete\<close>) are taken to return normally; the one-second
  pause between chunks has no part in the result.
\<close>

function batch_loop ::
  "provider \<Rightarrow> (read_point \<Rightarrow> bool) \<Rightarrow> string list \<Rightarrow> nat \<Rightarrow> gen_state
     \<Rightarrow> string option \<times> gen_state"
where
  "batch_loop provider signal descriptions i st =
     (if i < length descriptions then
        (if signal (ChunkStart i) then (Some ''Generation cancelled'', st)
         else
           let batchStart = i;
               batchEnd = min (i + batchSize) (length descriptions);
               batch = take (batchEnd - batchStart) (drop batchStart descriptions)
           in case process_batch provider signal (zip [batchStart..<batchEnd] batch) st of
                Inl e \<Rightarrow> (Some e, st)
              | Inr st' \<Rightarrow> batch_loop provider signal descriptions (i + batchSize) st')
      else (None, st))"
  by pat_completeness auto
termination
  by (relation "measure (\<lambda>(provider, signal, descriptions, i, st). length descriptions - i)")
     (auto simp: batchSize_def)

definition generateAllImages_run ::
  "provider \<Rightarrow> (read_point \<Rightarrow> bool) \<Rightarrow> string list \<Rightarrow> string option \<times> gen_state" where
  "generateAllImages_run provider signal descriptions =
     batch_loop provider signal descriptions 0
       \<lparr>images = replicate (length descriptions) None, failed = [], completed = 0,
        itemCalls = []\<rparr>"

text \<open>What the caller of \<open>generateAllImages\<close> gets: the rejection (\<open>Inl\<close>) or the
  \<open>images\<close> array (\<open>Inr\<close>).\<close>

definition generateAllImages ::
  "provider \<Rightarrow> (read_point \<Rightarrow> bool) \<Rightarrow> string list \<Rightarrow> string + string option list" where
  "generateAllImages provider signal descriptions =
     (case generateAllImages_run provider signal descriptions of
        (Some e, st) \<Rightarrow> Inl e
      | (None, st) \<Rightarrow> Inr (images st))"

text \<open>
  The fate of one symbol in the specification's words: up to three attempts; the first
  one that succeeds gives the artwork, and if all three fail the symbol has failed for
  good, with the third failure as its error.
\<close>

definition outcome3 :: "provider \<Rightarrow> string \<Rightarrow> nat \<Rightarrow> string + string" where
  "outcome3 provider desc i =
     (case provider desc i 0 of
        Inr imageData \<Rightarrow> Inr imageData
      | Inl m0 \<Rightarrow>
          (case provider desc i 1 of
             Inr imageData \<Rightarrow> Inr imageData
           | Inl m1 \<Rightarrow> provider desc i 2))"

text \<open>The slot of symbol \<open>i\<close> in the result: its artwork, or \<open>null\<close> after a permanent
  failure.\<close>

definition artwork :: "provider \<Rightarrow> string list \<Rightarrow> nat \<Rightarrow> string option" where
  "artwork provider descriptions i =
     (case outcome3 provider (descriptions ! i) i of
        Inr imageData \<Rightarrow> Some imageData
      | Inl message \<Rightarrow> None)"

definition failure_of :: "provider \<Rightarrow> string list \<Rightarrow> nat \<Rightarrow> (nat \<times> string \<times> string) list" where
  "failure_of provider descriptions i =
     (case outcome3 provider (descriptions ! i) i of
        Inr imageData \<Rightarrow> []
      | Inl message \<Rightarrow> [(i, descriptions ! i, message)])"

definition event_of :: "provider \<Rightarrow> string list \<Rightarrow> nat \<Rightarrow> item_event" where
  "event_of provider descriptions i =
     (case outcome3 provider (descriptions ! i) i of
        Inr imageData \<Rightarrow> ItemComplete i (Some imageData) None
      | Inl message \<Rightarrow> ItemComplete i None (Some message))"

text \<open>The items below \<open>m\<close> whose pre-dispatch check finds the signal clear: the items
  that are dispatched when the chunks before \<open>m\<close> are.\<close>

definition dispatched :: "(read_point \<Rightarrow> bool) \<Rightarrow> nat \<Rightarrow> nat list" where
  "dispatched signal m = filter (\<lambda>j. \<not> signal (Dispatch j)) [0..<m]"

text \<open>The result array when exactly those items have been dispatched and have
  completed: their slots hold their fate, every other slot is \<open>null\<close>.\<close>

definition slots ::
  "provider \<Rightarrow> (read_point \<Rightarrow> bool) \<Rightarrow> string list \<Rightarrow> nat \<Rightarrow> string option list" where
  "slots provider signal descriptions m =
     map (\<lambda>j. if j < m \<and> \<not> signal (Dispatch j) then artwork provider descriptions j else None)
       [0..<length descriptions]"

text \<open>The first chunk, named by the value \<open>c\<close> of the loop variable (a multiple of
  \<open>batchSize\<close> below \<open>n\<close>), whose start-of-chunk check finds the signal aborted, if
  there is one among the chunks of \<open>n\<close> descriptions; and the number of items in the
  chunks before it, which is \<open>n\<close> when there is none.\<close>

definition cancelled_at :: "(read_point \<Rightarrow> bool) \<Rightarrow> nat \<Rightarrow> nat option" where
  "cancelled_at signal n =
     List.find (\<lambda>c. c mod batchSize = 0 \<and> signal (ChunkStart c)) [0..<n]"

definition reached :: "(read_point \<Rightarrow> bool) \<Rightarrow> nat \<Rightarrow> nat" where
  "reached signal n = (case cancelled_at signal n of Some c \<Rightarrow> c | None \<Rightarrow> n)"

text \<open>The state of a call when exactly the items in \<open>D\<close> have been dispatched and have
  completed, in whatever order: the result array, the counter, the calls of
  \<open>onImageComplete\<close> as a multiset and the entries of \<open>failed\<close> as a set.\<close>

definition settled :: "provider \<Rightarrow> string list \<Rightarrow> nat set \<Rightarrow> gen_state \<Rightarrow> bool" where
  "settled provider descriptions D st \<longleftrightarrow>
     length (images st) = length descriptions
     \<and> (\<forall>j<length descriptions.
           images st ! j = (if j \<in> D then artwork provider descriptions j else None))
     \<and> completed st = card D
     \<and> mset (itemCalls st) = image_mset (event_of provider descriptions) (mset_set D)
     \<and> set (failed st) = (\<Union>j\<in>D. set (failure_of provider descriptions j))"

text \<open>
  Two callers. One aborts while the chunk that starts at \<open>c\<close> is in flight: the reads
  made for that chunk and for earlier ones find the signal clear, every later read
  finds it aborted. The other aborts from its \<open>onProgress\<close> callback at the start of
  the chunk that starts at \<open>c\<close>, after that chunk's own check and before its items are
  dispatched.
\<close>

fun aborted_during :: "nat \<Rightarrow> read_point \<Rightarrow> bool" where
  "aborted_during c (ChunkStart i) = (c < i)"
| "aborted_during c (Dispatch j) = (c + batchSize \<le> j)"

fun aborted_by_progress :: "nat \<Rightarrow> read_point \<Rightarrow> bool" where
  "aborted_by_progress c (ChunkStart i) = (c < i)"
| "aborted_by_progress c (Dispatch j) = (c \<le> j)"

text \<open>Two providers to run the orchestrator on: one that always delivers, and one that
  fails every attempt for symbol \<open>k\<close> with a rate-limit error.\<close>

definition echo_provider :: provider where
  "echo_provider desc i attempt = Inr (''img:'' @ desc)"

definition failing_provider :: "nat \<Rightarrow> provider" where
  "failing_provider k desc i attempt =
     (if i = k then Inl ''HTTP 429'' else Inr (''img:'' @ desc))"

section \<open>Admission gate\<close>

text \<open>
  The class \<open>RateLimiter\<close>. Its methods read the wall clock; here every value that
  \<open>Date.now()\<close> returns is an argument, in milliseconds. (The field \<open>queue\<close> of the class
  is never read or written after the constructor and is left out.)
\<close>

record rate_limiter =
  maxConcurrent :: int
  maxPerMinute :: int
  activeCount :: int
  requestTimestamps :: "int list"

definition RateLimiter :: "int \<Rightarrow> int \<Rightarrow> rate_limiter" where
  "RateLimiter maxConcurrent' maxPerMinute' =
     \<lparr>maxConcurrent = maxConcurrent', maxPerMinute = maxPerMinute', activeCount = 0,
      requestTimestamps = []\<rparr>"

text \<open>The global instance \<open>new RateLimiter(10, 100)\<close>.\<close>

definition rateLimiter :: rate_limiter where
  "rateLimiter = RateLimiter 10 100"

definition cleanupTimestamps :: "int \<Rightarrow> rate_limiter \<Rightarrow> rate_limiter" where
  "cleanupTimestamps now rl =
     (let oneMinuteAgo = now - 60000
      in rl\<lparr>requestTimestamps := filter (\<lambda>ts. ts > oneMinuteAgo) (requestTimestamps rl)\<rparr>)"

definition isRateLimited :: "int \<Rightarrow> rate_limiter \<Rightarrow> bool \<times> rate_limiter" where
  "isRateLimited now rl =
     (let rl' = cleanupTimestamps now rl
      in (int (length (requestTimestamps rl')) \<ge> maxPerMinute rl', rl'))"

definition release :: "rate_limiter \<Rightarrow> rate_limiter" where
  "release rl = rl\<lparr>activeCount := activeCount rl - 1\<rparr>"

record limiter_status =
  active :: int
  requestsThisMinute :: nat

definition getStatus :: "int \<Rightarrow> rate_limiter \<Rightarrow> limiter_status \<times> rate_limiter" where
  "getStatus now rl =
     (let rl' = cleanupTimestamps now rl
      in (\<lparr>active = activeCount rl', requestsThisMinute = length (requestTimestamps rl')\<rparr>, rl'))"

text \<open>
  \<open>acquire\<close> is a polling loop with one suspension point, the 500 ms timeout. Between two
  suspensions JavaScript runs it without interleaving, so one evaluation of the loop
  condition together with what follows it is one atomic step: either the condition
  holds and the caller goes to sleep (\<open>Blocked\<close>), or it fails and, in the same step,
  \<open>activeCount\<close> is incremented and the call start is recorded (\<open>Admitted\<close>). \<open>||\<close> is
  short-circuit: at the concurrency ceiling \<open>isRateLimited\<close> is not called. \<open>t1\<close> is the
  clock value read inside \<open>isRateLimited\<close>, \<open>t2\<close> the one that is pushed.
\<close>

datatype admission = Admitted | Blocked

definition acquire_check :: "int \<Rightarrow> int \<Rightarrow> rate_limiter \<Rightarrow> admission \<times> rate_limiter" where
  "acquire_check t1 t2 rl =
     (if activeCount rl \<ge> maxConcurrent rl then (Blocked, rl)
      else case isRateLimited t1 rl of
             (True, rl') \<Rightarrow> (Blocked, rl')
           | (False, rl') \<Rightarrow>
               (Admitted, rl'\<lparr>activeCount := activeCount rl' + 1,
                              requestTimestamps := push (requestTimestamps rl') t2\<rparr>))"

text \<open>
  The callers of the gate: every task is one call of \<open>generateImageWithRateLimit\<close>, with
  its attempt number. A task is about to call \<open>acquire\<close> (\<open>Ready\<close>, or \<open>Backoff\<close> until its
  back-off timeout has passed), sleeps inside \<open>acquire\<close> until its poll timeout has
  passed (\<open>Polling\<close>), holds a slot while its provider call is outstanding (\<open>InFlight\<close>),
  or has returned or thrown (\<open>Settled\<close>).
\<close>

datatype task =
    Ready nat
  | Backoff nat int
  | Polling nat int
  | InFlight nat
  | Settled "string + string"

fun in_flight :: "task \<Rightarrow> bool" where
  "in_flight (InFlight a) = True"
| "in_flight t = False"

text \<open>
  The gate, its callers and the clock. \<open>starts\<close> is the history of all call-start
  timestamps \<open>acquire\<close> has ever recorded; \<open>requestTimestamps\<close> forgets old ones, the
  history does not.
\<close>

record system =
  limiter :: rate_limiter
  clock :: int
  tasks :: "task list"
  starts :: "int list"

definition init :: "nat \<Rightarrow> int \<Rightarrow> system" where
  "init n t = \<lparr>limiter = rateLimiter, clock = t, tasks = replicate n (Ready 0), starts = []\<rparr>"

text \<open>Task \<open>i\<close>, on attempt \<open>a\<close>, evaluates the loop condition of \<open>acquire\<close>.\<close>

definition enter_gate :: "nat \<Rightarrow> nat \<Rightarrow> int \<Rightarrow> int \<Rightarrow> system \<Rightarrow> system" where
  "enter_gate i a t1 t2 s =
     (case acquire_check t1 t2 (limiter s) of
        (Admitted, rl) \<Rightarrow>
          s\<lparr>limiter := rl, clock := t2, tasks := (tasks s)[i := InFlight a],
            starts := starts s @ [t2]\<rparr>
      | (Blocked, rl) \<Rightarrow>
          s\<lparr>limiter := rl, clock := t1, tasks := (tasks s)[i := Polling a (t1 + 500)]\<rparr>)"

text \<open>What \<open>generateImageWithRateLimit\<close> does when the provider call of attempt \<open>a\<close> has
  settled (after \<open>release\<close> in the \<open>finally\<close>): return, back off and retry, or throw.\<close>

definition after_attempt :: "nat \<Rightarrow> string + string \<Rightarrow> int \<Rightarrow> task" where
  "after_attempt a outcome now =
     (case outcome of
        Inr result \<Rightarrow> Settled (Inr result)
      | Inl message \<Rightarrow>
          if isRateLimitError message \<and> a < 3 - 1
            then Backoff (a + 1) (now + (int a + 1) * 10000)
          else if a < 3 - 1 then Backoff (a + 1) (now + 2000)
          else Settled (Inl message))"

text \<open>
  The atomic steps. Each carries the values \<open>Date.now()\<close> returns while it runs, which
  never decrease (a monotone clock), and a timeout does not fire early.
  \<^item> \<open>Enter i t1 t2\<close>: task \<open>i\<close> calls \<open>acquire\<close>.
  \<^item> \<open>Wake i t0 t1 t2\<close>: the poll timeout of task \<open>i\<close> fires; \<open>cleanupTimestamps\<close> runs at
    \<open>t0\<close>, then the loop condition is evaluated again.
  \<^item> \<open>Settle i outcome\<close>: the provider call of task \<open>i\<close> settles; \<open>release\<close>.
  \<^item> \<open>Status t\<close>: \<open>generateAllImages\<close> calls \<open>getStatus\<close> for its progress text.
  A step that is not enabled in a state yields \<open>None\<close>.
\<close>

datatype event =
    Enter nat int int
  | Wake nat int int int
  | Settle nat "string + string"
  | Status int

fun step :: "event \<Rightarrow> system \<Rightarrow> system option" where
  "step (Enter i t1 t2) s =
     (if i < length (tasks s) \<and> clock s \<le> t1 \<and> t1 \<le> t2 then
        (case tasks s ! i of
           Ready a \<Rightarrow> Some (enter_gate i a t1 t2 s)
         | Backoff a w \<Rightarrow> if w \<le> t1 then Some (enter_gate i a t1 t2 s) else None
         | _ \<Rightarrow> None)
      else None)"
| "step (Wake i t0 t1 t2) s =
     (if i < length (tasks s) \<and> clock s \<le> t0 \<and> t0 \<le> t1 \<and> t1 \<le> t2 then
        (case tasks s ! i of
           Polling a w \<Rightarrow>
             if w \<le> t0
               then Some (enter_gate i a t1 t2 (s\<lparr>limiter := cleanupTimestamps t0 (limiter s)\<rparr>))
             else None
         | _ \<Rightarrow> None)
      else None)"
| "step (Settle i outcome) s =
     (if i < length (tasks s) then
        (case tasks s ! i of
           InFlight a \<Rightarrow>
             Some (s\<lparr>limiter := release (limiter s),
                     tasks := (tasks s)[i := after_attempt a outcome (clock s)]\<rparr>)
         | _ \<Rightarrow> None)
      else None)"
| "step (Status t) s =
     (if clock s \<le> t
        then Some (s\<lparr>limiter := snd (getStatus t (limiter s)), clock := t\<rparr>)
      else None)"

fun run :: "event list \<Rightarrow> system \<Rightarrow> system option" where
  "run [] s = Some s"
| "run (e # es) s = (case step e s of None \<Rightarrow> None | Some s' \<Rightarrow> run es s')"

text \<open>The number of provider calls in flight, and the number of call starts in the
  60-second window that ends at \<open>w\<close>: the timestamps \<open>ts\<close> with
  \<open>w - 60000 < ts \<le> w\<close>.\<close>

definition inFlightCount :: "system \<Rightarrow> nat" where
  "inFlightCount s = length (filter in_flight (tasks s))"

definition startsInWindow :: "int \<Rightarrow> system \<Rightarrow> nat" where
  "startsInWindow w s = length (filter (\<lambda>ts. w - 60000 < ts \<and> ts \<le> w) (starts s))"

text \<open>The two invariants of the reachable states. The first ties the gate's counter to
  the calls in flight. The second ties the timestamps the gate remembers to the history:
  from the current clock value on, a clean-up keeps exactly the call starts of the
  trailing 60 seconds.\<close>

definition conc_inv :: "system \<Rightarrow> bool" where
  "conc_inv s \<longleftrightarrow>
     maxConcurrent (limiter s) = 10
     \<and> activeCount (limiter s) = int (inFlightCount s)
     \<and> inFlightCount s \<le> 10"

definition rate_inv :: "system \<Rightarrow> bool" where
  "rate_inv s \<longleftrightarrow>
     maxPerMinute (limiter s) = 100
     \<and> list_all (\<lambda>ts. ts \<le> clock s) (starts s)
     \<and> (\<forall>t. clock s \<le> t \<longrightarrow>
           filter (\<lambda>ts. t - 60000 < ts) (requestTimestamps (limiter s))
             = filter (\<lambda>ts. t - 60000 < ts) (starts s))
     \<and> (\<forall>w. startsInWindow w s \<le> 100)"

text \<open>Two runs to try the gate on. Eleven callers arrive one millisecond apart. And a
  hundred callers arrive one millisecond apart, each call settling at once, before
  one more caller arrives.\<close>

definition eleven_callers :: "event list" where
  "eleven_callers = map (\<lambda>i. Enter i (int i + 1) (int i + 1)) [0..<11]"

definition hundred_and_one_callers :: "event list" where
  "hundred_and_one_callers =
     concat (map (\<lambda>i. [Enter i (int i + 1) (int i + 1), Settle i (Inr ''img'')]) [0..<100])
     @ [Enter 100 101 101]"

section \<open>Properties of the plane constructor\<close>

subsection \<open>Loops that push are maps\<close>

lemma fold_push_map: "fold (\<lambda>i acc. push acc (f i)) xs acc = acc @ map f xs"
  by (induction xs arbitrary: acc) (simp_all add: push_def)

lemma fold_fold_push_concat:
  "fold (\<lambda>i acc. fold (\<lambda>j acc. push acc (g i j)) ys acc) xs acc
     = acc @ concat (map (\<lambda>i. map (g i) ys) xs)"
  by (induction xs arbitrary: acc) (simp_all add: fold_push_map)

lemma generateCards_closed: "generateCards n = cards_spec n"
  unfolding generateCards_def cards_spec_def Let_def
  by (simp only: fold_push_map fold_fold_push_concat) (simp add: push_def)

subsection \<open>Counts, sizes and ranges, for every order\<close>

lemma length_cards_spec: "length (cards_spec n) = n * n + n + 1"
  by (simp add: cards_spec_def length_concat comp_def sum_list_triv)

lemma card_length_cards_spec: "c \<in> set (cards_spec n) \<Longrightarrow> length c = n + 1"
  by (auto simp: cards_spec_def)

lemma block_bound:
  fixes n k r :: nat
  assumes "k < n" "r < n"
  shows "n + 1 + k * n + r < n * n + n + 1"
proof -
  have "k * n + r < Suc k * n" using assms by simp
  also have "\<dots> \<le> n * n" using assms by (intro mult_le_mono1) simp
  finally show ?thesis by simp
qed

lemma symbols_in_range_cards_spec:
  assumes "c \<in> set (cards_spec n)" "s \<in> set c"
  shows "s < n * n + n + 1"
  using assms block_bound [of _ n]
  by (auto simp: cards_spec_def intro: le_less_trans [of _ n] trans_less_add1)

lemma block_inj:
  fixes n :: nat
  assumes "k * n + a = k' * n + b" "a < n" "b < n"
  shows "k = k'"
proof -
  have "(a + k * n) div n = (b + k' * n) div n" using assms(1) by (simp add: add.commute)
  then show ?thesis using assms by simp
qed

lemma distinct_cards_spec:
  assumes "c \<in> set (cards_spec n)"
  shows "distinct c"
proof -
  have a: "distinct (map (\<lambda>j. n + 1 + i * n + j) [0..<n])" for i
    by (simp add: distinct_map inj_on_def)
  have b: "distinct (map (\<lambda>k. n + 1 + k * n + ((i * k + j) mod n)) [0..<n])" for i j
    by (auto simp: distinct_map inj_on_def dest: block_inj)
  show ?thesis
    using assms a b by (auto simp: cards_spec_def)
qed

subsection \<open>What \<open>verifyCards\<close> decides\<close>

lemma includes_elem_iff: "includes_elem d s \<longleftrightarrow> s \<in> set d"
  by (induction d) auto

lemma verifyRow_iff: "verifyRow c ds \<longleftrightarrow> (\<forall>d\<in>set ds. length (shared c d) = 1)"
  by (induction ds) auto

lemma verifyCards_sorted_wrt:
  "verifyCards cs \<longleftrightarrow> sorted_wrt (\<lambda>c d. length (shared c d) = 1) cs"
  by (induction cs) (auto simp: verifyRow_iff)

lemma length_shared_card:
  assumes "distinct c"
  shows "length (shared c d) = card (set c \<inter> set d)"
proof -
  have "set (shared c d) = set c \<inter> set d"
    by (auto simp: shared_def includes_elem_iff)
  moreover have "distinct (shared c d)" using assms by (simp add: shared_def)
  ultimately show ?thesis by (metis distinct_card)
qed

lemma verifyCards_pairwise:
  assumes "verifyCards cs" "\<forall>c\<in>set cs. distinct c"
    "a < length cs" "b < length cs" "a \<noteq> b"
  shows "card (set (cs ! a) \<inter> set (cs ! b)) = 1"
proof -
  have sw: "\<And>i j. i < j \<Longrightarrow> j < length cs \<Longrightarrow> length (shared (cs ! i) (cs ! j)) = 1"
    using assms(1) by (simp add: verifyCards_sorted_wrt sorted_wrt_iff_nth_less)
  show ?thesis
  proof (cases "a < b")
    case True
    then have "length (shared (cs ! a) (cs ! b)) = 1" using sw assms(4) by blast
    moreover have "distinct (cs ! a)" using assms(2,3) by simp
    ultimately show ?thesis by (simp add: length_shared_card)
  next
    case False
    then have "b < a" using assms(5) by simp
    then have "length (shared (cs ! b) (cs ! a)) = 1" using sw assms(3) by blast
    moreover have "distinct (cs ! b)" using assms(2,4) by simp
    ultimately show ?thesis by (simp add: length_shared_card Int_commute)
  qed
qed

subsection \<open>The exhaustive pairwise check, run on the generated sets\<close>

lemma verifyCards_order_2: "verifyCards (generateCards 2)"
  by code_simp

lemma verifyCards_order_3: "verifyCards (generateCards 3)"
  by code_simp

lemma verifyCards_order_5: "verifyCards (generateCards 5)"
  by code_simp

lemma verifyCards_order_7: "verifyCards (generateCards 7)"
  by code_simp

lemma verifyCards_order_4: "\<not> verifyCards (generateCards 4)"
  by code_simp

lemma generateCards_order_2:
  "generateCards 2 = [[0, 1, 2], [0, 3, 4], [0, 5, 6], [1, 3, 5], [1, 4, 6], [2, 3, 6], [2, 4, 5]]"
  by code_simp

lemma generateCards_order_4:
  "generateCards 4 =
     [[0, 1, 2, 3, 4], [0, 5, 6, 7, 8], [0, 9, 10, 11, 12], [0, 13, 14, 15, 16],
      [0, 17, 18, 19, 20], [1, 5, 9, 13, 17], [1, 6, 10, 14, 18],
      [1, 7, 11, 15, 19], [1, 8, 12, 16, 20], [2, 5, 10, 15, 20],
      [2, 6, 11, 16, 17], [2, 7, 12, 13, 18], [2, 8, 9, 14, 19],
      [3, 5, 11, 13, 19], [3, 6, 12, 14, 20], [3, 7, 9, 15, 17],
      [3, 8, 10, 16, 18], [4, 5, 12, 15, 18], [4, 6, 9, 16, 19],
      [4, 7, 10, 13, 20], [4, 8, 11, 14, 17]]"
  by code_simp

subsection \<open>The claims about \<open>generateCards\<close>\<close>

text \<open>
  C1. For every supported order \<open>n \<in> {2, 3, 5, 7}\<close>, \<open>generateCards n\<close> returns exactly
  \<open>n * n + n + 1\<close> cards, each card holds exactly \<open>n + 1\<close> distinct symbol indices, all
  below \<open>n * n + n + 1\<close>, any two distinct cards have exactly one symbol in common, and
  \<open>verifyCards\<close> accepts the set.
\<close>

theorem generateCards_supported_orders:
  assumes "n \<in> {2, 3, 5, 7}"
  shows "length (generateCards n) = n * n + n + 1
    \<and> (\<forall>c\<in>set (generateCards n).
          length c = n + 1 \<and> distinct c \<and> (\<forall>s\<in>set c. s < n * n + n + 1))
    \<and> (\<forall>a<length (generateCards n). \<forall>b<length (generateCards n).
          a \<noteq> b \<longrightarrow> card (set (generateCards n ! a) \<inter> set (generateCards n ! b)) = 1)
    \<and> verifyCards (generateCards n)"
proof -
  have v: "verifyCards (generateCards n)"
    using assms verifyCards_order_2 verifyCards_order_3 verifyCards_order_5
      verifyCards_order_7 by auto
  have d: "\<forall>c\<in>set (generateCards n). distinct c"
    by (simp add: generateCards_closed distinct_cards_spec)
  have l: "length (generateCards n) = n * n + n + 1"
    by (simp add: generateCards_closed length_cards_spec)
  have c: "\<forall>c\<in>set (generateCards n).
          length c = n + 1 \<and> distinct c \<and> (\<forall>s\<in>set c. s < n * n + n + 1)"
    using d
    by (auto simp: generateCards_closed card_length_cards_spec
        dest: symbols_in_range_cards_spec)
  have p: "\<forall>a<length (generateCards n). \<forall>b<length (generateCards n).
          a \<noteq> b \<longrightarrow> card (set (generateCards n ! a) \<inter> set (generateCards n ! b)) = 1"
    using verifyCards_pairwise [OF v d] by blast
  from l c p v show ?thesis by blast
qed

theorem generateCards_supported_orders_witness:
  "(7::nat) \<in> {2, 3, 5, 7}
    \<and> length (generateCards 7) = 57
    \<and> length (generateCards 7 ! 56) = 8
    \<and> distinct (generateCards 7 ! 56)
    \<and> card (set (generateCards 7 ! 0) \<inter> set (generateCards 7 ! 56)) = 1
    \<and> verifyCards (generateCards 7)"
proof -
  have h: "(7::nat) \<in> {2, 3, 5, 7}" by simp
  note t = generateCards_supported_orders [OF h]
  have l: "length (generateCards 7) = 57" using t by simp
  have m: "generateCards 7 ! 56 \<in> set (generateCards 7)" using l by simp
  have c: "length (generateCards 7 ! 56) = 8 \<and> distinct (generateCards 7 ! 56)"
    using t m by simp
  have "card (set (generateCards 7 ! 0) \<inter> set (generateCards 7 ! 56)) = 1"
    using t l by simp
  then show ?thesis using h t l c by simp
qed

text \<open>
  C2. \<open>generateCards\<close> produces exactly the sequence the specification describes, in
  exactly that order (\<open>cards_spec\<close>): card 0 is \<open>[0, \<dots>, n]\<close>; card \<open>1 + i\<close> is \<open>0\<close>
  followed by \<open>n + 1 + i * n + j\<close> for \<open>j = 0, \<dots>, n - 1\<close>; then, for \<open>(i, j)\<close> in row-major
  order, \<open>i + 1\<close> followed by \<open>n + 1 + k * n + ((i * k + j) mod n)\<close> for
  \<open>k = 0, \<dots>, n - 1\<close>. For \<open>n = 2\<close> these are the 7 cards of 3 symbols from \<open>{0..6}\<close>
  listed below, with card 0 = \<open>[0, 1, 2]\<close>.
\<close>

theorem generateCards_sequence:
  "generateCards n = cards_spec n
    \<and> generateCards 2
        = [[0, 1, 2], [0, 3, 4], [0, 5, 6], [1, 3, 5], [1, 4, 6], [2, 3, 6], [2, 4, 5]]"
  using generateCards_closed generateCards_order_2 by simp

text \<open>
  C3 as stated fails: \<open>generateCards\<close> has no check of its argument and no way to
  signal an error. At the unsupported order 4 it returns 21 cards, and that set is
  miscomputed: \<open>verifyCards\<close> rejects it.
\<close>

theorem generateCards_unsupported_counterexample:
  "(4::nat) \<notin> {2, 3, 5, 7}
    \<and> generateCards 4 =
     [[0, 1, 2, 3, 4], [0, 5, 6, 7, 8], [0, 9, 10, 11, 12], [0, 13, 14, 15, 16],
      [0, 17, 18, 19, 20], [1, 5, 9, 13, 17], [1, 6, 10, 14, 18],
      [1, 7, 11, 15, 19], [1, 8, 12, 16, 20], [2, 5, 10, 15, 20],
      [2, 6, 11, 16, 17], [2, 7, 12, 13, 18], [2, 8, 9, 14, 19],
      [3, 5, 11, 13, 19], [3, 6, 12, 14, 20], [3, 7, 9, 15, 17],
      [3, 8, 10, 16, 18], [4, 5, 12, 15, 18], [4, 6, 9, 16, 19],
      [4, 7, 10, 13, 20], [4, 8, 11, 14, 17]]
    \<and> \<not> verifyCards (generateCards 4)"
  using generateCards_order_4 verifyCards_order_4 by simp

text \<open>
  C3, amended. For an order outside the supported set \<open>generateCards\<close> does not fail:
  it runs the same construction and returns the complete list of \<open>n * n + n + 1\<close>
  cards of \<open>n + 1\<close> symbols each. Keeping the order inside \<open>{2, 3, 5, 7}\<close> is left to
  the caller.
\<close>

theorem generateCards_unsupported_returns:
  assumes "n \<notin> {2, 3, 5, 7}"
  shows "generateCards n = cards_spec n
    \<and> length (generateCards n) = n * n + n + 1
    \<and> (\<forall>c\<in>set (generateCards n). length c = n + 1)"
  by (simp add: generateCards_closed length_cards_spec card_length_cards_spec)

theorem generateCards_unsupported_returns_witness:
  "(4::nat) \<notin> {2, 3, 5, 7}
    \<and> length (generateCards 4) = 21
    \<and> length (generateCards 4 ! 20) = 5"
proof -
  have h: "(4::nat) \<notin> {2, 3, 5, 7}" by simp
  note t = generateCards_unsupported_returns [OF h, THEN conjunct2]
  have l: "length (generateCards 4) = 21" using t by simp
  have m: "generateCards 4 ! 20 \<in> set (generateCards 4)" using l by simp
  have "length (generateCards 4 ! 20) = 5" using t m by simp
  then show ?thesis using h l by blast
qed

text \<open>
  C10. \<open>generateCards\<close> is total on the positive integers: for every \<open>n \<ge> 1\<close>,
  supported or not, it returns \<open>n * n + n + 1\<close> cards, each of length \<open>n + 1\<close>, with every
  entry below \<open>n * n + n + 1\<close>. The one-shared-symbol property is not part of this: at
  the composite order 4 it fails.
\<close>

theorem generateCards_total:
  assumes "1 \<le> n"
  shows "length (generateCards n) = n * n + n + 1
    \<and> (\<forall>c\<in>set (generateCards n). length c = n + 1 \<and> (\<forall>s\<in>set c. s < n * n + n + 1))
    \<and> \<not> verifyCards (generateCards 4)"
proof -
  have "length (generateCards n) = n * n + n + 1"
    by (simp add: generateCards_closed length_cards_spec)
  moreover have "\<forall>c\<in>set (generateCards n).
      length c = n + 1 \<and> (\<forall>s\<in>set c. s < n * n + n + 1)"
    by (auto simp: generateCards_closed card_length_cards_spec
        dest: symbols_in_range_cards_spec)
  ultimately show ?thesis using verifyCards_order_4 by blast
qed

theorem generateCards_total_witness:
  "(1::nat) \<le> 4
    \<and> length (generateCards 4) = 21
    \<and> length (generateCards 4 ! 9) = 5
    \<and> list_all (\<lambda>s. s < 21) (generateCards 4 ! 9)"
proof -
  have h: "(1::nat) \<le> 4" by simp
  note t = generateCards_total [OF h]
  have l: "length (generateCards 4) = 21" using t by simp
  have m: "generateCards 4 ! 9 \<in> set (generateCards 4)" using l by simp
  have b: "\<forall>c\<in>set (generateCards 4). length c = 5 \<and> (\<forall>s\<in>set c. s < 21)"
    using t by simp
  have "length (generateCards 4 ! 9) = 5 \<and> (\<forall>s\<in>set (generateCards 4 ! 9). s < 21)"
    using bspec [OF b m] .
  then show ?thesis using h l by (simp add: list_all_iff)
qed

section \<open>Properties of the layout generators\<close>

subsection \<open>The seeded shuffle is a permutation\<close>

lemma frac_range: "0 \<le> x - of_int \<lfloor>x\<rfloor> \<and> x - of_int \<lfloor>x\<rfloor> < (1::real)"
  by linarith

lemma seededRandom_range: "0 \<le> seededRandom env seed \<and> seededRandom env seed < 1"
  unfolding seededRandom_def Let_def by (rule frac_range)

lemma seededRandom_radial_range:
  "0 \<le> seededRandom_radial env seed \<and> seededRandom_radial env seed < 1"
  unfolding seededRandom_radial_def Let_def by (rule frac_range)

lemma shuffle_index_le:
  fixes r :: real
  assumes "0 \<le> r" "r < 1"
  shows "nat \<lfloor>r * (real i + 1)\<rfloor> \<le> i"
proof -
  have "r * (real i + 1) < 1 * (real i + 1)"
    using assms by (intro mult_strict_right_mono) simp_all
  then have "r * (real i + 1) < of_int (int i) + 1" by simp
  then have "\<lfloor>r * (real i + 1)\<rfloor> \<le> int i" by (simp only: floor_le_iff)
  then show ?thesis by simp
qed

lemma length_swap: "length (swap a i j) = length a"
  by (simp add: swap_def)

lemma mset_swap_js: "i < length a \<Longrightarrow> j < length a \<Longrightarrow> mset (swap a i j) = mset a"
  unfolding swap_def by (simp add: mset_swap)

lemma shuffle_loop_perm:
  assumes "\<forall>i\<in>set is. i < length a" "\<And>i s. f i s \<le> i"
  shows "length (fold (\<lambda>i s. swap s i (f i s)) is a) = length a
       \<and> mset (fold (\<lambda>i s. swap s i (f i s)) is a) = mset a"
  using assms(1)
proof (induction "is" arbitrary: a)
  case Nil
  then show ?case by simp
next
  case (Cons i "is")
  have i: "i < length a" using Cons.prems by simp
  have j: "f i a < length a" using assms(2) [of i a] i by simp
  have "\<forall>k\<in>set is. k < length (swap a i (f i a))"
    using Cons.prems by (simp add: length_swap)
  from Cons.IH [OF this] show ?case
    using i j by (simp add: length_swap mset_swap_js)
qed

lemma seededShuffle_perm:
  "length (seededShuffle env a seed) = length a \<and> mset (seededShuffle env a seed) = mset a"
proof -
  have "\<forall>i\<in>set (rev [1..<length a]). i < length a" by simp
  moreover have "\<And>i (s::'a list). nat \<lfloor>seededRandom env (seed + real i) * (real i + 1)\<rfloor> \<le> i"
    using seededRandom_range shuffle_index_le by blast
  ultimately show ?thesis
    unfolding seededShuffle_def Let_def
    by (rule shuffle_loop_perm [where f = "\<lambda>i s. nat \<lfloor>seededRandom env (seed + real i) * (real i + 1)\<rfloor>"])
qed

lemma shuffledSizes_perm:
  "length (shuffledSizes env c) = 6 \<and> mset (shuffledSizes env c) = mset sizeCategories"
proof -
  have "\<forall>i\<in>set (rev [1..<length sizeCategories]). i < length sizeCategories" by simp
  moreover have "\<And>i (s::real list).
      nat \<lfloor>seededRandom_radial env (real c * 50 + real i) * (real i + 1)\<rfloor> \<le> i"
    using seededRandom_radial_range shuffle_index_le by blast
  ultimately have "length (shuffledSizes env c) = length sizeCategories
      \<and> mset (shuffledSizes env c) = mset sizeCategories"
    unfolding shuffledSizes_def Let_def
    by (rule shuffle_loop_perm [where f = "\<lambda>i s. nat \<lfloor>seededRandom_radial env (real c * 50 + real i) * (real i + 1)\<rfloor>"])
  then show ?thesis by (simp add: sizeCategories_def)
qed

lemma generateAllLayouts_map:
  "generateAllLayouts env m k s
     = map (\<lambda>c. seededShuffle env (basePositions k s) (real c * 137)) [0..<m]"
  unfolding generateAllLayouts_def Let_def by (simp add: fold_push_map)

lemma generateAllLayouts_radial_map:
  "generateAllLayouts_radial env m k s = map (\<lambda>c. radialPositions env c k s) [0..<m]"
  unfolding generateAllLayouts_radial_def by (simp add: fold_push_map)

lemma grid_covers: "symbolsPerCard \<le> cols (getGridDimensions symbolsPerCard) * rows (getGridDimensions symbolsPerCard)
    \<and> 0 < cols (getGridDimensions symbolsPerCard) \<and> 0 < rows (getGridDimensions symbolsPerCard)"
proof -
  have "real n \<le> 4 * real (nat \<lceil>real n / 4\<rceil>)" for n :: nat
  proof -
    have "real n / 4 \<le> of_int \<lceil>real n / 4\<rceil>" by (rule le_of_int_ceiling)
    moreover have "(0::int) \<le> \<lceil>real n / 4\<rceil>" by simp
    moreover have "real (nat \<lceil>real n / 4\<rceil>) = of_int \<lceil>real n / 4\<rceil>" by simp
    ultimately show ?thesis by linarith
  qed
  then have "n \<le> 4 * nat \<lceil>real n / 4\<rceil>" for n :: nat
    by (metis of_nat_le_iff of_nat_mult of_nat_numeral)
  moreover have "9 < n \<Longrightarrow> 0 < nat \<lceil>real n / 4\<rceil>" for n :: nat
    by simp
  ultimately show ?thesis
    by (simp add: getGridDimensions_def)
qed

lemma cell_in_range:
  fixes pad cw ss avail S :: real
  assumes "0 \<le> pad" "0 \<le> ss" "ss \<le> cw" "c < n" "real n * cw = avail" "pad + avail + pad = S"
  shows "0 \<le> pad + real c * cw + (cw - ss) / 2"
    and "pad + real c * cw + (cw - ss) / 2 + ss \<le> S"
proof -
  have cw: "0 \<le> cw" using assms by simp
  then have "0 \<le> real c * cw" by simp
  then show "0 \<le> pad + real c * cw + (cw - ss) / 2" using assms by simp
  have "real c + 1 \<le> real n" using assms(4) by simp
  then have "(real c + 1) * cw \<le> real n * cw" using cw by (rule mult_right_mono)
  then have "real c * cw + cw \<le> avail" using assms(5) by (simp add: algebra_simps)
  moreover have "(cw - ss) / 2 + ss \<le> cw" using assms(3) by (simp add: field_simps)
  moreover have "pad + avail \<le> S" using assms(1,6) by simp
  ultimately show "pad + real c * cw + (cw - ss) / 2 + ss \<le> S" by (simp add: add.assoc)
qed

lemma basePositions_closed:
  "basePositions k s =
     map (\<lambda>i. \<lparr>pos_x = s * 0.08 + real (i mod cols (getGridDimensions k))
                          * ((s - s * 0.08 * 2) / real (cols (getGridDimensions k)))
                    + ((s - s * 0.08 * 2) / real (cols (getGridDimensions k))
                       - min ((s - s * 0.08 * 2) / real (cols (getGridDimensions k)))
                             ((s - s * 0.08 * 2) / real (rows (getGridDimensions k))) * 0.85) / 2,
                pos_y = s * 0.08 + real (nat \<lfloor>real i / real (cols (getGridDimensions k))\<rfloor>)
                          * ((s - s * 0.08 * 2) / real (rows (getGridDimensions k)))
                    + ((s - s * 0.08 * 2) / real (rows (getGridDimensions k))
                       - min ((s - s * 0.08 * 2) / real (cols (getGridDimensions k)))
                             ((s - s * 0.08 * 2) / real (rows (getGridDimensions k))) * 0.85) / 2,
                pos_size = min ((s - s * 0.08 * 2) / real (cols (getGridDimensions k)))
                             ((s - s * 0.08 * 2) / real (rows (getGridDimensions k))) * 0.85,
                pos_rotation = 0\<rparr>) [0..<k]"
  unfolding basePositions_def Let_def by (simp only: fold_push_map append_Nil)

lemma length_basePositions: "length (basePositions k s) = k"
  by (simp add: basePositions_closed)

lemma basePositions_in_canvas:
  assumes "0 \<le> s" "p \<in> set (basePositions k s)"
  shows "in_canvas s p"
proof -
  define g where "g = getGridDimensions k"
  define cw where "cw = (s - s * 0.08 * 2) / real (cols g)"
  define ch where "ch = (s - s * 0.08 * 2) / real (rows g)"
  define ss where "ss = min cw ch * 0.85"
  from assms(2) obtain i where i: "i < k"
    and p: "pos_x p = s * 0.08 + real (i mod cols g) * cw + (cw - ss) / 2"
           "pos_y p = s * 0.08 + real (nat \<lfloor>real i / real (cols g)\<rfloor>) * ch + (ch - ss) / 2"
           "pos_size p = ss"
    unfolding basePositions_closed g_def cw_def ch_def ss_def by auto
  have g: "k \<le> cols g * rows g" "0 < cols g" "0 < rows g"
    using grid_covers [of k] by (simp_all add: g_def)
  have cw0: "0 \<le> cw" and ch0: "0 \<le> ch" using assms(1) by (simp_all add: cw_def ch_def)
  have ss0: "0 \<le> ss" using cw0 ch0 by (simp add: ss_def)
  have sscw: "ss \<le> cw" and ssch: "ss \<le> ch"
    using cw0 ch0 by (auto simp: ss_def min_def)
  have pad: "0 \<le> s * 0.08" using assms(1) by simp
  have col: "i mod cols g < cols g" using g(2) by simp
  have "nat \<lfloor>real i / real (cols g)\<rfloor> = i div cols g"
    by (simp add: floor_divide_of_nat_eq)
  moreover have "i div cols g < rows g"
    using i g(1) by (simp add: less_mult_imp_div_less mult.commute)
  ultimately have row: "nat \<lfloor>real i / real (cols g)\<rfloor> < rows g" by simp
  have aw: "real (cols g) * cw = s - s * 0.08 * 2" using g(2) by (simp add: cw_def)
  have ah: "real (rows g) * ch = s - s * 0.08 * 2" using g(3) by (simp add: ch_def)
  have tot: "s * 0.08 + (s - s * 0.08 * 2) + s * 0.08 = s" by simp
  note X = cell_in_range [OF pad ss0 sscw col aw tot]
  note Y = cell_in_range [OF pad ss0 ssch row ah tot]
  show ?thesis
    unfolding in_canvas_def p using X Y by simp
qed

lemma radial_axis:
  fixes s r u1 u2 t :: real
  assumes s: "0 \<le> s" and r: "0.22 \<le> r" "r \<le> 0.42"
    and u1: "0 \<le> u1" "u1 < 1" and u2: "0 \<le> u2" "u2 < 1" and t: "\<bar>t\<bar> \<le> 1"
  defines "dst \<equiv> s * 0.28 * (u1 * 0.25 + 0.6) * (1.2 - r / 0.42 * 0.4)"
    and "sz \<equiv> s * r * (1 + (u2 * 0.15 - 0.075))"
  shows "0 \<le> s / 2 + t * dst - sz / 2"
    and "s / 2 + t * dst - sz / 2 + sz \<le> s"
proof -
  define P where "P = (u1 * 0.25 + 0.6) * (1.2 - r / 0.42 * 0.4)"
  define Q where "Q = r * (1 + (u2 * 0.15 - 0.075))"
  have A: "0 \<le> 1.2 - r / 0.42 * 0.4" "1.2 - r / 0.42 * 0.4 \<le> 1"
    using r by (simp_all add: field_simps)
  have dv: "0 \<le> u1 * 0.25 + 0.6" "u1 * 0.25 + 0.6 \<le> 0.85"
    using u1 by simp_all
  have P1: "P \<le> 0.85 * 1"
    unfolding P_def using dv A by (intro mult_mono) simp_all
  have P0: "0 \<le> P"
    unfolding P_def using dv(1) A(1) by (rule mult_nonneg_nonneg)
  have s28: "0 \<le> s * 0.28" using s by simp
  have dP: "dst = s * 0.28 * P" by (simp add: dst_def P_def mult.assoc)
  have d0: "0 \<le> dst" unfolding dP using s28 P0 by (rule mult_nonneg_nonneg)
  have "dst \<le> s * 0.28 * (0.85 * 1)" unfolding dP using P1 s28 by (rule mult_left_mono)
  then have d1: "dst \<le> s * 0.238" by simp
  have "\<bar>t * dst\<bar> = \<bar>t\<bar> * dst" using d0 by (simp add: abs_mult)
  also have "\<dots> \<le> 1 * dst" using t d0 by (rule mult_right_mono)
  finally have td: "\<bar>t * dst\<bar> \<le> s * 0.238" using d1 by simp
  have sv: "0 \<le> 1 + (u2 * 0.15 - 0.075)" "1 + (u2 * 0.15 - 0.075) \<le> 1.075"
    using u2 by simp_all
  have Q1: "Q \<le> 0.42 * 1.075"
    unfolding Q_def using r sv by (intro mult_mono) simp_all
  have zQ: "sz = s * Q" by (simp add: sz_def Q_def mult.assoc)
  have "sz \<le> s * (0.42 * 1.075)" unfolding zQ using Q1 s by (rule mult_left_mono)
  then have z: "sz \<le> s * 0.4515" by simp
  have lo: "- (s * 0.238) \<le> t * dst" and hi: "t * dst \<le> s * 0.238"
    using td by (simp_all add: abs_le_iff)
  have e1: "s * 0.238 + (s * 0.4515) / 2 \<le> s / 2" using s by simp
  have "sz / 2 \<le> (s * 0.4515) / 2" using z by simp
  with lo e1 show "0 \<le> s / 2 + t * dst - sz / 2" by simp
  have e2: "s / 2 + s * 0.238 + (s * 0.4515) / 2 \<le> s" using s by simp
  have "s / 2 + t * dst - sz / 2 + sz = s / 2 + t * dst + sz / 2" by simp
  also have "\<dots> \<le> s / 2 + s * 0.238 + (s * 0.4515) / 2" using hi z by simp
  finally show "s / 2 + t * dst - sz / 2 + sz \<le> s" using e2 by simp
qed

lemma shuffledSizes_nth_range:
  "0.22 \<le> shuffledSizes env c ! (i mod length (shuffledSizes env c))
    \<and> shuffledSizes env c ! (i mod length (shuffledSizes env c)) \<le> 0.42"
proof -
  have "i mod length (shuffledSizes env c) < length (shuffledSizes env c)"
    using shuffledSizes_perm [of env c] by simp
  then have "shuffledSizes env c ! (i mod length (shuffledSizes env c))
      \<in> set (shuffledSizes env c)" by (rule nth_mem)
  also have "set (shuffledSizes env c) = set sizeCategories"
    using shuffledSizes_perm [of env c] by (metis mset_eq_setD)
  finally show ?thesis by (auto simp: sizeCategories_def)
qed

lemma length_radialPositions: "length (radialPositions env c k s) = k"
  unfolding radialPositions_def Let_def by (simp add: fold_push_map)

lemma radialPositions_in_canvas:
  assumes "0 \<le> s" "\<forall>t. \<bar>math_sin env t\<bar> \<le> 1" "\<forall>t. \<bar>math_cos env t\<bar> \<le> 1"
    and "p \<in> set (radialPositions env c k s)"
  shows "in_canvas s p"
proof -
  from assms(4) obtain i where p: "p =
     \<lparr>pos_x = s / 2 + math_cos env ((real i / real k) * math_PI * 2
                  + (seededRandom_radial env (real c * 100 + real i) * 0.4 - 0.2))
             * (s * 0.28 * (seededRandom_radial env (real c * 100 + real i + 1) * 0.25 + 0.6)
                * (1.2 - shuffledSizes env c ! (i mod length (shuffledSizes env c)) / 0.42 * 0.4))
             - s * shuffledSizes env c ! (i mod length (shuffledSizes env c))
               * (1 + (seededRandom_radial env (real c * 100 + real i + 2) * 0.15 - 0.075)) / 2,
      pos_y = s / 2 + math_sin env ((real i / real k) * math_PI * 2
                  + (seededRandom_radial env (real c * 100 + real i) * 0.4 - 0.2))
             * (s * 0.28 * (seededRandom_radial env (real c * 100 + real i + 1) * 0.25 + 0.6)
                * (1.2 - shuffledSizes env c ! (i mod length (shuffledSizes env c)) / 0.42 * 0.4))
             - s * shuffledSizes env c ! (i mod length (shuffledSizes env c))
               * (1 + (seededRandom_radial env (real c * 100 + real i + 2) * 0.15 - 0.075)) / 2,
      pos_size = s * shuffledSizes env c ! (i mod length (shuffledSizes env c))
               * (1 + (seededRandom_radial env (real c * 100 + real i + 2) * 0.15 - 0.075)),
      pos_rotation = seededRandom_radial env (real c * 100 + real i + 3) * 360\<rparr>"
    unfolding radialPositions_def Let_def by (auto simp only: fold_push_map append_Nil set_map)
  note r = shuffledSizes_nth_range [of env c i]
  note u1 = seededRandom_radial_range [of env "real c * 100 + real i + 1"]
  note u2 = seededRandom_radial_range [of env "real c * 100 + real i + 2"]
  note X = radial_axis [OF assms(1) conjunct1 [OF r] conjunct2 [OF r]
      conjunct1 [OF u1] conjunct2 [OF u1] conjunct1 [OF u2] conjunct2 [OF u2]
      spec [OF assms(3)]]
  note Y = radial_axis [OF assms(1) conjunct1 [OF r] conjunct2 [OF r]
      conjunct1 [OF u1] conjunct2 [OF u1] conjunct1 [OF u2] conjunct2 [OF u2]
      spec [OF assms(2)]]
  show ?thesis
    unfolding in_canvas_def p by (simp only: placement.simps) (intro conjI X Y)
qed

subsection \<open>The claims about \<open>generateAllLayouts\<close>\<close>

text \<open>
  C8. For every card count, every number \<open>k\<close> of symbols per card (in particular
  \<open>k \<in> {3, 4, 6, 8}\<close>) and every canvas size \<open>cardSize \<ge> 0\<close>, \<open>generateAllLayouts\<close> returns
  exactly \<open>cardCount\<close> layouts of exactly \<open>k\<close> placements each, and the square
  \<open>[x, x + size] \<times> [y, y + size]\<close> of every placement lies in
  \<open>[0, cardSize] \<times> [0, cardSize]\<close>. This holds for the grid strategy and for the radial
  strategy, the latter for any \<open>Math.sin\<close> and \<open>Math.cos\<close> with values in \<open>[-1, 1]\<close>.
\<close>

theorem generateAllLayouts_in_canvas:
  assumes "0 \<le> cardSize" "k \<in> {3, 4, 6, 8}"
    and "\<forall>t. \<bar>math_sin env t\<bar> \<le> 1" "\<forall>t. \<bar>math_cos env t\<bar> \<le> 1"
  shows "length (generateAllLayouts env cardCount k cardSize) = cardCount
    \<and> (\<forall>layout\<in>set (generateAllLayouts env cardCount k cardSize).
          length layout = k \<and> (\<forall>p\<in>set layout. in_canvas cardSize p))
    \<and> length (generateAllLayouts_radial env cardCount k cardSize) = cardCount
    \<and> (\<forall>layout\<in>set (generateAllLayouts_radial env cardCount k cardSize).
          length layout = k \<and> (\<forall>p\<in>set layout. in_canvas cardSize p))"
proof -
  have grid: "length layout = k \<and> (\<forall>p\<in>set layout. in_canvas cardSize p)"
    if "layout \<in> set (generateAllLayouts env cardCount k cardSize)" for layout
  proof -
    from that obtain c where l: "layout = seededShuffle env (basePositions k cardSize) (real c * 137)"
      by (auto simp: generateAllLayouts_map)
    have "length layout = k"
      by (simp add: l seededShuffle_perm length_basePositions)
    moreover have "set layout = set (basePositions k cardSize)"
      unfolding l using seededShuffle_perm [of env "basePositions k cardSize"]
      by (metis mset_eq_setD)
    ultimately show ?thesis
      using basePositions_in_canvas [OF assms(1)] by blast
  qed
  have radial: "length layout = k \<and> (\<forall>p\<in>set layout. in_canvas cardSize p)"
    if "layout \<in> set (generateAllLayouts_radial env cardCount k cardSize)" for layout
  proof -
    from that obtain c where l: "layout = radialPositions env c k cardSize"
      by (auto simp: generateAllLayouts_radial_map)
    show ?thesis
      unfolding l using radialPositions_in_canvas [OF assms(1,3,4)]
      by (simp add: length_radialPositions)
  qed
  have "length (generateAllLayouts env cardCount k cardSize) = cardCount"
    by (simp add: generateAllLayouts_map)
  moreover have "length (generateAllLayouts_radial env cardCount k cardSize) = cardCount"
    by (simp add: generateAllLayouts_radial_map)
  ultimately show ?thesis using grid radial by blast
qed

theorem generateAllLayouts_in_canvas_witness:
  "(0::real) \<le> 200 \<and> (3::nat) \<in> {3, 4, 6, 8}
    \<and> (\<forall>t. \<bar>math_sin \<lparr>math_sin = sin, math_cos = cos, date_now = 0, math_random = (\<lambda>n. 0)\<rparr> t\<bar> \<le> 1)
    \<and> (\<forall>t. \<bar>math_cos \<lparr>math_sin = sin, math_cos = cos, date_now = 0, math_random = (\<lambda>n. 0)\<rparr> t\<bar> \<le> 1)
    \<and> length (generateAllLayouts
          \<lparr>math_sin = sin, math_cos = cos, date_now = 0, math_random = (\<lambda>n. 0)\<rparr> 1 3 200) = 1
    \<and> length (generateAllLayouts
          \<lparr>math_sin = sin, math_cos = cos, date_now = 0, math_random = (\<lambda>n. 0)\<rparr> 1 3 200 ! 0) = 3
    \<and> list_all (in_canvas 200) (generateAllLayouts
          \<lparr>math_sin = sin, math_cos = cos, date_now = 0, math_random = (\<lambda>n. 0)\<rparr> 1 3 200 ! 0)
    \<and> length (generateAllLayouts_radial
          \<lparr>math_sin = sin, math_cos = cos, date_now = 0, math_random = (\<lambda>n. 0)\<rparr> 1 3 200) = 1
    \<and> length (generateAllLayouts_radial
          \<lparr>math_sin = sin, math_cos = cos, date_now = 0, math_random = (\<lambda>n. 0)\<rparr> 1 3 200 ! 0) = 3
    \<and> list_all (in_canvas 200) (generateAllLayouts_radial
          \<lparr>math_sin = sin, math_cos = cos, date_now = 0, math_random = (\<lambda>n. 0)\<rparr> 1 3 200 ! 0)"
proof -
  define e where "e = \<lparr>math_sin = sin, math_cos = cos, date_now = 0, math_random = (\<lambda>n::nat. 0::real)\<rparr>"
  have h1: "(0::real) \<le> 200" by simp
  have h2: "(3::nat) \<in> {3, 4, 6, 8}" by simp
  have h3: "\<forall>t. \<bar>math_sin e t\<bar> \<le> 1" by (simp add: e_def)
  have h4: "\<forall>t. \<bar>math_cos e t\<bar> \<le> 1" by (simp add: e_def)
  note t = generateAllLayouts_in_canvas [OF h1 h2 h3 h4, of 1]
  have g: "generateAllLayouts e 1 3 200 ! 0 \<in> set (generateAllLayouts e 1 3 200)"
    using t by simp
  have r: "generateAllLayouts_radial e 1 3 200 ! 0 \<in> set (generateAllLayouts_radial e 1 3 200)"
    using t by simp
  have tg: "\<forall>layout\<in>set (generateAllLayouts e 1 3 200).
      length layout = 3 \<and> (\<forall>p\<in>set layout. in_canvas 200 p)"
    using t by blast
  have tr: "\<forall>layout\<in>set (generateAllLayouts_radial e 1 3 200).
      length layout = 3 \<and> (\<forall>p\<in>set layout. in_canvas 200 p)"
    using t by blast
  have "length (generateAllLayouts e 1 3 200 ! 0) = 3
      \<and> list_all (in_canvas 200) (generateAllLayouts e 1 3 200 ! 0)"
    using bspec [OF tg g] by (simp add: list_all_iff)
  moreover have "length (generateAllLayouts_radial e 1 3 200 ! 0) = 3
      \<and> list_all (in_canvas 200) (generateAllLayouts_radial e 1 3 200 ! 0)"
    using bspec [OF tr r] by (simp add: list_all_iff)
  ultimately show ?thesis
    using h1 h2 h3 h4 t unfolding e_def by blast
qed

text \<open>
  C9. \<open>generateAllLayouts\<close> is deterministic. Its result is a function of its
  arguments and of \<open>Math.sin\<close> and \<open>Math.cos\<close> alone: two runs whose environments agree on
  these two functions, whatever their wall clocks and entropy sources, return the same
  layouts; and the layout of card \<open>c\<close> is the same in every call that produces it, so
  it depends on the card index, the number of symbols and the canvas size only. Both
  strategies.
\<close>

theorem generateAllLayouts_deterministic:
  assumes "math_sin env' = math_sin env" "math_cos env' = math_cos env"
  shows "generateAllLayouts env' numCards k cardSize = generateAllLayouts env numCards k cardSize
    \<and> generateAllLayouts_radial env' numCards k cardSize
        = generateAllLayouts_radial env numCards k cardSize
    \<and> (\<forall>c. c < numCards \<and> c < numCards' \<longrightarrow>
          generateAllLayouts env' numCards' k cardSize ! c
            = generateAllLayouts env numCards k cardSize ! c
          \<and> generateAllLayouts_radial env' numCards' k cardSize ! c
            = generateAllLayouts_radial env numCards k cardSize ! c)"
proof -
  have sr: "seededRandom env' = seededRandom env"
    by (simp add: fun_eq_iff seededRandom_def assms)
  have srr: "seededRandom_radial env' = seededRandom_radial env"
    by (simp add: fun_eq_iff seededRandom_radial_def assms)
  have sh: "seededShuffle env' a seed = seededShuffle env a seed" for a :: "placement list" and seed
    by (simp add: seededShuffle_def sr)
  have ss: "shuffledSizes env' c = shuffledSizes env c" for c
    by (simp add: shuffledSizes_def srr)
  have rp: "radialPositions env' c k cardSize = radialPositions env c k cardSize" for c
    by (simp add: radialPositions_def srr ss assms)
  show ?thesis
    by (simp add: generateAllLayouts_map generateAllLayouts_radial_map sh rp)
qed

theorem generateAllLayouts_deterministic_witness:
  "math_sin \<lparr>math_sin = sin, math_cos = cos, date_now = 1000, math_random = (\<lambda>n. 1 / 2)\<rparr>
      = math_sin \<lparr>math_sin = sin, math_cos = cos, date_now = 0, math_random = (\<lambda>n. 0)\<rparr>
    \<and> math_cos \<lparr>math_sin = sin, math_cos = cos, date_now = 1000, math_random = (\<lambda>n. 1 / 2)\<rparr>
      = math_cos \<lparr>math_sin = sin, math_cos = cos, date_now = 0, math_random = (\<lambda>n. 0)\<rparr>
    \<and> generateAllLayouts
          \<lparr>math_sin = sin, math_cos = cos, date_now = 1000, math_random = (\<lambda>n. 1 / 2)\<rparr> 57 8 200
      = generateAllLayouts
          \<lparr>math_sin = sin, math_cos = cos, date_now = 0, math_random = (\<lambda>n. 0)\<rparr> 57 8 200
    \<and> generateAllLayouts_radial
          \<lparr>math_sin = sin, math_cos = cos, date_now = 1000, math_random = (\<lambda>n. 1 / 2)\<rparr> 57 8 200
      = generateAllLayouts_radial
          \<lparr>math_sin = sin, math_cos = cos, date_now = 0, math_random = (\<lambda>n. 0)\<rparr> 57 8 200
    \<and> generateAllLayouts
          \<lparr>math_sin = sin, math_cos = cos, date_now = 1000, math_random = (\<lambda>n. 1 / 2)\<rparr> 7 8 200 ! 5
      = generateAllLayouts
          \<lparr>math_sin = sin, math_cos = cos, date_now = 0, math_random = (\<lambda>n. 0)\<rparr> 57 8 200 ! 5"
proof -
  define e where "e = \<lparr>math_sin = sin, math_cos = cos, date_now = 0, math_random = (\<lambda>n::nat. 0::real)\<rparr>"
  define e' where "e' = \<lparr>math_sin = sin, math_cos = cos, date_now = 1000,
    math_random = (\<lambda>n::nat. 1 / 2 :: real)\<rparr>"
  have h1: "math_sin e' = math_sin e" by (simp add: e_def e'_def)
  have h2: "math_cos e' = math_cos e" by (simp add: e_def e'_def)
  note t = generateAllLayouts_deterministic [OF h1 h2, of 57 8 200 7]
  have "generateAllLayouts e' 7 8 200 ! 5 = generateAllLayouts e 57 8 200 ! 5"
    using t by simp
  then show ?thesis using h1 h2 t unfolding e_def e'_def by blast
qed

section \<open>Properties of the batch orchestrator\<close>

subsection \<open>Three attempts\<close>

declare retry_loop.simps [simp del]
declare batch_loop.simps [simp del]

lemma three_attempts:
  "fst (generateImageWithRateLimit provider d i 3) =
     (case outcome3 provider d i of Inl m \<Rightarrow> Inl (Some m) | Inr r \<Rightarrow> Inr r)"
proof -
  have r3: "fst (retry_loop g 3 (Suc (Suc (Suc 0))) st) = Inl (lastError st)" for g st
    by (subst retry_loop.simps) simp
  have r2: "fst (retry_loop g 3 (Suc (Suc 0)) st)
      = (case g (Suc (Suc 0)) of Inr r \<Rightarrow> Inr r | Inl m \<Rightarrow> Inl (Some m))" for g st
    by (subst retry_loop.simps) (simp add: r3 Let_def split: sum.split)
  have r1: "fst (retry_loop g 3 (Suc 0) st) = (case g (Suc 0) of Inr r \<Rightarrow> Inr r | Inl m1 \<Rightarrow>
      (case g (Suc (Suc 0)) of Inr r \<Rightarrow> Inr r | Inl m \<Rightarrow> Inl (Some m)))" for g st
    by (subst retry_loop.simps) (simp add: r2 Let_def split: sum.split)
  have r0: "fst (retry_loop g 3 0 st) = (case g 0 of Inr r \<Rightarrow> Inr r | Inl m0 \<Rightarrow>
      (case g (Suc 0) of Inr r \<Rightarrow> Inr r | Inl m1 \<Rightarrow>
      (case g (Suc (Suc 0)) of Inr r \<Rightarrow> Inr r | Inl m \<Rightarrow> Inl (Some m))))" for g st
    by (subst retry_loop.simps) (simp add: r1 Let_def split: sum.split)
  show ?thesis
    unfolding generateImageWithRateLimit_def r0 outcome3_def
    by (simp add: numeral_2_eq_2 split: sum.split)
qed

subsection \<open>One item, and the items of a chunk in any order\<close>

lemma settled_init:
  "settled provider descriptions {}
     \<lparr>images = replicate (length descriptions) None, failed = [], completed = 0,
      itemCalls = []\<rparr>"
  by (simp add: settled_def)

lemma process_item_skipped: "process_item provider True st j d = Inr st"
  by (simp add: process_item_def)

lemma process_item_settled:
  assumes "settled provider descriptions D st" "finite D" "j \<notin> D" "j < length descriptions"
  shows "\<exists>st'. process_item provider False st j (descriptions ! j) = Inr st'
    \<and> settled provider descriptions (insert j D) st'"
proof (cases "outcome3 provider (descriptions ! j) j")
  case (Inr imageData)
  then have a: "artwork provider descriptions j = Some imageData"
    and e: "event_of provider descriptions j = ItemComplete j (Some imageData) None"
    and f: "failure_of provider descriptions j = []"
    by (simp_all add: artwork_def event_of_def failure_of_def)
  let ?st = "st\<lparr>images := (images st)[j := Some imageData],
                completed := completed st + 1,
                itemCalls := push (itemCalls st) (ItemComplete j (Some imageData) None)\<rparr>"
  have "process_item provider False st j (descriptions ! j) = Inr ?st"
    by (simp add: process_item_def three_attempts Inr)
  moreover have "settled provider descriptions (insert j D) ?st"
    using assms a e f by (auto simp: settled_def push_def nth_list_update)
  ultimately show ?thesis by blast
next
  case (Inl message)
  then have a: "artwork provider descriptions j = None"
    and e: "event_of provider descriptions j = ItemComplete j None (Some message)"
    and f: "failure_of provider descriptions j = [(j, descriptions ! j, message)]"
    by (simp_all add: artwork_def event_of_def failure_of_def)
  let ?st = "st\<lparr>failed := push (failed st) (j, descriptions ! j, message),
                completed := completed st + 1,
                itemCalls := push (itemCalls st) (ItemComplete j None (Some message))\<rparr>"
  have "process_item provider False st j (descriptions ! j) = Inr ?st"
    by (simp add: process_item_def three_attempts Inl)
  moreover have "settled provider descriptions (insert j D) ?st"
    using assms a e f by (auto simp: settled_def push_def)
  ultimately show ?thesis by blast
qed

lemma process_batch_settled:
  assumes "distinct js" "set js \<inter> D = {}" "finite D"
    "\<forall>j\<in>set js. j < length descriptions"
    "settled provider descriptions D st"
  shows "\<exists>st'. process_batch provider signal (map (\<lambda>j. (j, descriptions ! j)) js) st = Inr st'
    \<and> settled provider descriptions (D \<union> {j \<in> set js. \<not> signal (Dispatch j)}) st'"
  using assms
proof (induction js arbitrary: D st)
  case Nil
  then show ?case by simp
next
  case (Cons j js)
  show ?case
  proof (cases "signal (Dispatch j)")
    case True
    have "\<exists>st'. process_batch provider signal (map (\<lambda>j. (j, descriptions ! j)) js) st = Inr st'
        \<and> settled provider descriptions (D \<union> {j \<in> set js. \<not> signal (Dispatch j)}) st'"
      using Cons.prems by (intro Cons.IH) auto
    moreover have "D \<union> {i \<in> set (j # js). \<not> signal (Dispatch i)}
        = D \<union> {i \<in> set js. \<not> signal (Dispatch i)}"
      using True by auto
    ultimately show ?thesis using True by (simp add: process_item_skipped)
  next
    case False
    from Cons.prems obtain st1 where
      st1: "process_item provider False st j (descriptions ! j) = Inr st1"
        "settled provider descriptions (insert j D) st1"
      using process_item_settled [of provider descriptions D st j] by auto
    have "\<exists>st'. process_batch provider signal (map (\<lambda>j. (j, descriptions ! j)) js) st1 = Inr st'
        \<and> settled provider descriptions (insert j D \<union> {j \<in> set js. \<not> signal (Dispatch j)}) st'"
      using Cons.prems st1(2) by (intro Cons.IH) auto
    moreover have "D \<union> {i \<in> set (j # js). \<not> signal (Dispatch i)}
        = insert j D \<union> {i \<in> set js. \<not> signal (Dispatch i)}"
      using False by auto
    ultimately show ?thesis using False st1(1) by simp
  qed
qed

text \<open>The items of a chunk may complete in any order: the result array, the counter,
  the calls of \<open>onImageComplete\<close> up to their order and the entries of \<open>failed\<close> are the
  same as in index order.\<close>

lemma process_batch_order_irrelevant:
  assumes "distinct js" "set js = {a..<b}" "b \<le> length descriptions"
    and "settled provider descriptions D st" "finite D" "D \<inter> {a..<b} = {}"
  shows "\<exists>st1 st2.
      process_batch provider signal (map (\<lambda>j. (j, descriptions ! j)) js) st = Inr st1
    \<and> process_batch provider signal (map (\<lambda>j. (j, descriptions ! j)) [a..<b]) st = Inr st2
    \<and> images st1 = images st2 \<and> completed st1 = completed st2
    \<and> mset (itemCalls st1) = mset (itemCalls st2) \<and> set (failed st1) = set (failed st2)"
proof -
  let ?D = "D \<union> {j \<in> {a..<b}. \<not> signal (Dispatch j)}"
  have in_range: "\<forall>j\<in>set js. j < length descriptions" "\<forall>j\<in>set [a..<b]. j < length descriptions"
    using assms(2,3) by auto
  obtain st1 where st1:
    "process_batch provider signal (map (\<lambda>j. (j, descriptions ! j)) js) st = Inr st1"
    "settled provider descriptions ?D st1"
    using process_batch_settled [where js = js and D = D and signal = signal
        and descriptions = descriptions and provider = provider and st = st]
      assms in_range(1) by auto
  obtain st2 where st2:
    "process_batch provider signal (map (\<lambda>j. (j, descriptions ! j)) [a..<b]) st = Inr st2"
    "settled provider descriptions ?D st2"
    using process_batch_settled [where js = "[a..<b]" and D = D and signal = signal
        and descriptions = descriptions and provider = provider and st = st]
      assms in_range(2) by auto
  have "images st1 = images st2"
    using st1(2) st2(2) by (intro nth_equalityI) (simp_all add: settled_def)
  then show ?thesis
    using st1 st2 by (auto simp: settled_def)
qed

subsection \<open>The loop over the chunks\<close>

lemma zip_slice:
  assumes "b \<le> length xs"
  shows "zip [a..<b] (take (b - a) (drop a xs)) = map (\<lambda>j. (j, xs ! j)) [a..<b]"
proof (rule nth_equalityI)
  show "length (zip [a..<b] (take (b - a) (drop a xs))) = length (map (\<lambda>j. (j, xs ! j)) [a..<b])"
    using assms by simp
next
  fix i assume "i < length (zip [a..<b] (take (b - a) (drop a xs)))"
  then have "i < b - a" by simp
  then show "zip [a..<b] (take (b - a) (drop a xs)) ! i = map (\<lambda>j. (j, xs ! j)) [a..<b] ! i"
    using assms by simp
qed

lemma set_dispatched: "set (dispatched signal m) = {j. j < m \<and> \<not> signal (Dispatch j)}"
  by (auto simp: dispatched_def)

lemma set_dispatched_extend:
  assumes "a \<le> b"
  shows "set (dispatched signal a) \<union> {j \<in> set [a..<b]. \<not> signal (Dispatch j)}
    = set (dispatched signal b)"
  using assms by (auto simp: set_dispatched)

text \<open>One pass of the loop body from a chunk whose start check finds the signal
  clear.\<close>

lemma batch_loop_chunk:
  assumes "i < length descriptions" "\<not> signal (ChunkStart i)"
    and "settled provider descriptions (set (dispatched signal i)) st"
  shows "\<exists>st'. batch_loop provider signal descriptions i st
        = batch_loop provider signal descriptions (i + batchSize) st'
    \<and> settled provider descriptions
        (set (dispatched signal (min (i + batchSize) (length descriptions)))) st'"
proof -
  define b where "b = min (i + batchSize) (length descriptions)"
  have b: "b \<le> length descriptions" "i \<le> b" using assms(1) by (simp_all add: b_def)
  have p1: "distinct [i..<b]" by simp
  have p2: "set [i..<b] \<inter> set (dispatched signal i) = {}"
    by (auto simp: set_dispatched)
  have p3: "finite (set (dispatched signal i))" by simp
  have p4: "\<forall>j\<in>set [i..<b]. j < length descriptions" using b(1) by simp
  have "\<exists>st'. process_batch provider signal (map (\<lambda>j. (j, descriptions ! j)) [i..<b]) st = Inr st'
      \<and> settled provider descriptions
           (set (dispatched signal i) \<union> {j \<in> set [i..<b]. \<not> signal (Dispatch j)}) st'"
    by (rule process_batch_settled [OF p1 p2 p3 p4 assms(3)])
  then obtain st' where st':
    "process_batch provider signal (map (\<lambda>j. (j, descriptions ! j)) [i..<b]) st = Inr st'"
    "settled provider descriptions (set (dispatched signal b)) st'"
    unfolding set_dispatched_extend [OF b(2)] by blast
  have "zip [i..<b] (take (b - i) (drop i descriptions))
      = map (\<lambda>j. (j, descriptions ! j)) [i..<b]"
    by (rule zip_slice [OF b(1)])
  then have "batch_loop provider signal descriptions i st
      = batch_loop provider signal descriptions (i + batchSize) st'"
    using assms(1,2) st'(1) unfolding b_def
    by (subst batch_loop.simps) (simp add: Let_def)
  then show ?thesis
    using st'(2) unfolding b_def by blast
qed

lemma batch_loop_cancel:
  assumes "i < length descriptions" "signal (ChunkStart i)"
  shows "batch_loop provider signal descriptions i st = (Some ''Generation cancelled'', st)"
  using assms by (subst batch_loop.simps) simp

lemma batch_loop_exit:
  assumes "length descriptions \<le> i"
  shows "batch_loop provider signal descriptions i st = (None, st)"
  using assms by (subst batch_loop.simps) simp

lemma mod_shift:
  fixes b :: nat
  assumes "i + b \<le> c"
  shows "(c - i) mod b = (c - (i + b)) mod b"
proof -
  have "(c - (i + b) + b) mod b = (c - (i + b)) mod b" by (rule mod_add_self2)
  moreover have "c - (i + b) + b = c - i" using assms by simp
  ultimately show ?thesis by metis
qed

lemma batch_loop_not_cancelled:
  assumes "\<forall>c. i \<le> c \<and> c < length descriptions \<and> (c - i) mod batchSize = 0
      \<longrightarrow> \<not> signal (ChunkStart c)"
    and "settled provider descriptions
      (set (dispatched signal (min i (length descriptions)))) st"
  shows "\<exists>st'. batch_loop provider signal descriptions i st = (None, st')
    \<and> settled provider descriptions (set (dispatched signal (length descriptions))) st'"
  using assms
proof (induction "length descriptions - i" arbitrary: i st rule: less_induct)
  case less
  show ?case
  proof (cases "i < length descriptions")
    case False
    then have "min i (length descriptions) = length descriptions" by simp
    then show ?thesis using less.prems(2) False by (simp add: batch_loop_exit)
  next
    case True
    then have ns: "\<not> signal (ChunkStart i)" using less.prems(1) by simp
    have m: "min i (length descriptions) = i" using True by simp
    obtain st1 where st1:
      "batch_loop provider signal descriptions i st
        = batch_loop provider signal descriptions (i + batchSize) st1"
      "settled provider descriptions
        (set (dispatched signal (min (i + batchSize) (length descriptions)))) st1"
      using batch_loop_chunk [where signal = signal and i = i, OF True ns]
        less.prems(2) unfolding m by blast
    have d: "length descriptions - (i + batchSize) < length descriptions - i"
      using True by (simp add: batchSize_def)
    have "\<forall>c. i + batchSize \<le> c \<and> c < length descriptions
        \<and> (c - (i + batchSize)) mod batchSize = 0 \<longrightarrow> \<not> signal (ChunkStart c)"
    proof (intro allI impI)
      fix c assume c: "i + batchSize \<le> c \<and> c < length descriptions
        \<and> (c - (i + batchSize)) mod batchSize = 0"
      then have "(c - i) mod batchSize = 0"
        using mod_shift [of i batchSize c] by simp
      then show "\<not> signal (ChunkStart c)" using c less.prems(1) by simp
    qed
    from less.hyps [OF d this st1(2)] show ?thesis
      unfolding st1(1) .
  qed
qed

lemma batch_loop_cancelled:
  assumes "c0 < length descriptions" "signal (ChunkStart c0)"
  shows "i \<le> c0 \<Longrightarrow> (c0 - i) mod batchSize = 0
    \<Longrightarrow> \<forall>c. i \<le> c \<and> c < c0 \<and> (c - i) mod batchSize = 0 \<longrightarrow> \<not> signal (ChunkStart c)
    \<Longrightarrow> settled provider descriptions (set (dispatched signal i)) st
    \<Longrightarrow> \<exists>st'. batch_loop provider signal descriptions i st = (Some ''Generation cancelled'', st')
        \<and> settled provider descriptions (set (dispatched signal c0)) st'"
proof (induction "c0 - i" arbitrary: i st rule: less_induct)
  case less
  show ?case
  proof (cases "i = c0")
    case True
    then show ?thesis
      using batch_loop_cancel [where i = c0 and signal = signal, OF assms] less.prems(4)
      by simp
  next
    case False
    then have lt: "i < c0" using less.prems(1) by simp
    then have il: "i < length descriptions" using assms(1) by simp
    have ns: "\<not> signal (ChunkStart i)" using less.prems(3) lt by simp
    have "batchSize dvd c0 - i" using less.prems(2) by (simp add: dvd_eq_mod_eq_0)
    then have "batchSize \<le> c0 - i" using lt by (intro dvd_imp_le) simp_all
    then have step: "i + batchSize \<le> c0" using lt by simp
    then have m: "min (i + batchSize) (length descriptions) = i + batchSize"
      using assms(1) by simp
    obtain st1 where st1:
      "batch_loop provider signal descriptions i st
        = batch_loop provider signal descriptions (i + batchSize) st1"
      "settled provider descriptions (set (dispatched signal (i + batchSize))) st1"
      using batch_loop_chunk [where signal = signal and i = i, OF il ns less.prems(4)]
      unfolding m by blast
    have d: "c0 - (i + batchSize) < c0 - i" using lt by (simp add: batchSize_def)
    have c0m: "(c0 - (i + batchSize)) mod batchSize = 0"
      using step less.prems(2) mod_shift [of i batchSize c0] by simp
    have "\<forall>c. i + batchSize \<le> c \<and> c < c0 \<and> (c - (i + batchSize)) mod batchSize = 0
        \<longrightarrow> \<not> signal (ChunkStart c)"
    proof (intro allI impI)
      fix c assume c: "i + batchSize \<le> c \<and> c < c0 \<and> (c - (i + batchSize)) mod batchSize = 0"
      then have "(c - i) mod batchSize = 0"
        using mod_shift [of i batchSize c] by simp
      then show "\<not> signal (ChunkStart c)" using c less.prems(3) by simp
    qed
    from less.hyps [OF d step c0m this st1(2)] show ?thesis
      unfolding st1(1) .
  qed
qed

lemma run_not_cancelled:
  assumes "\<forall>c<length descriptions. c mod batchSize = 0 \<longrightarrow> \<not> signal (ChunkStart c)"
  shows "\<exists>st'. generateAllImages_run provider signal descriptions = (None, st')
    \<and> settled provider descriptions (set (dispatched signal (length descriptions))) st'"
proof -
  have "settled provider descriptions (set (dispatched signal (min 0 (length descriptions))))
      \<lparr>images = replicate (length descriptions) None, failed = [], completed = 0,
       itemCalls = []\<rparr>"
    using settled_init [of provider descriptions] by (simp add: dispatched_def)
  moreover have "\<forall>c. 0 \<le> c \<and> c < length descriptions \<and> (c - 0) mod batchSize = 0
      \<longrightarrow> \<not> signal (ChunkStart c)"
    using assms by simp
  ultimately show ?thesis
    unfolding generateAllImages_run_def
    by (intro batch_loop_not_cancelled [where i = 0 and signal = signal])
qed

lemma run_cancelled:
  assumes "c0 < length descriptions" "signal (ChunkStart c0)" "c0 mod batchSize = 0"
    and "\<forall>c<c0. c mod batchSize = 0 \<longrightarrow> \<not> signal (ChunkStart c)"
  shows "\<exists>st'. generateAllImages_run provider signal descriptions
        = (Some ''Generation cancelled'', st')
    \<and> settled provider descriptions (set (dispatched signal c0)) st'"
proof -
  have s: "settled provider descriptions (set (dispatched signal 0))
      \<lparr>images = replicate (length descriptions) None, failed = [], completed = 0,
       itemCalls = []\<rparr>"
    using settled_init [of provider descriptions] by (simp add: dispatched_def)
  have a: "\<forall>c. 0 \<le> c \<and> c < c0 \<and> (c - 0) mod batchSize = 0 \<longrightarrow> \<not> signal (ChunkStart c)"
    using assms(4) by simp
  have b: "(c0 - 0) mod batchSize = 0" using assms(3) by simp
  have z: "0 \<le> c0" by simp
  show ?thesis
    unfolding generateAllImages_run_def
    by (rule batch_loop_cancelled [where ?c0.0 = c0 and signal = signal and i = 0,
          OF assms(1,2) z b a s])
qed

text \<open>What a state holds when the dispatched items below \<open>m\<close> have settled.\<close>

lemma settled_dispatched:
  assumes "settled provider descriptions (set (dispatched signal m)) st"
  shows "images st = slots provider signal descriptions m"
    and "completed st = length (dispatched signal m)"
    and "mset (itemCalls st) = mset (map (event_of provider descriptions) (dispatched signal m))"
    and "set (failed st)
      = (\<Union>j\<in>set (dispatched signal m). set (failure_of provider descriptions j))"
proof -
  have dist: "distinct (dispatched signal m)" by (simp add: dispatched_def)
  show "images st = slots provider signal descriptions m"
    using assms by (intro nth_equalityI) (simp_all add: settled_def slots_def set_dispatched)
  show "completed st = length (dispatched signal m)"
    using assms dist by (simp add: settled_def distinct_card)
  show "mset (itemCalls st) = mset (map (event_of provider descriptions) (dispatched signal m))"
    using assms dist by (simp add: settled_def mset_set_set)
  show "set (failed st)
      = (\<Union>j\<in>set (dispatched signal m). set (failure_of provider descriptions j))"
    using assms by (simp add: settled_def)
qed

lemma cancelled_at_None:
  assumes "cancelled_at signal n = None"
  shows "\<forall>c<n. c mod batchSize = 0 \<longrightarrow> \<not> signal (ChunkStart c)"
  using assms by (auto simp: cancelled_at_def find_None_iff)

lemma cancelled_at_Some:
  assumes "cancelled_at signal n = Some c"
  shows "c < n" "c mod batchSize = 0" "signal (ChunkStart c)"
    "\<forall>c'<c. c' mod batchSize = 0 \<longrightarrow> \<not> signal (ChunkStart c')"
  using assms by (auto simp: cancelled_at_def find_Some_iff)

lemma multiple_gap:
  fixes b :: nat
  assumes "c < j" "j mod b = 0" "c mod b = 0"
  shows "c + b \<le> j"
proof -
  have "b dvd j" "b dvd c" using assms(2,3) by (simp_all add: dvd_eq_mod_eq_0)
  then have "b dvd j - c" by (rule dvd_diff_nat)
  then have "b \<le> j - c" using assms(1) by (intro dvd_imp_le) simp_all
  then show ?thesis using assms(1) by simp
qed

lemma find_upt_first:
  assumes "k < n" "P k" "\<forall>j<k. \<not> P j"
  shows "List.find P [0..<n] = Some k"
proof -
  have "k < length [0..<n]" "P ([0..<n] ! k)" "k = [0..<n] ! k"
    using assms(1,2) by simp_all
  moreover have "\<forall>j<k. \<not> P ([0..<n] ! j)"
    using assms(1,3) by simp
  ultimately show ?thesis
    unfolding find_Some_iff by blast
qed

text \<open>A caller who aborts while the chunk that starts at \<open>c\<close> is in flight is found out
  at the start of the next chunk, if there is a next chunk.\<close>

lemma cancelled_at_aborted_during:
  assumes "c mod batchSize = 0"
  shows "cancelled_at (aborted_during c) n
    = (if c + batchSize < n then Some (c + batchSize) else None)"
proof -
  have gap: "c + batchSize \<le> j"
    if "j mod batchSize = 0 \<and> aborted_during c (ChunkStart j)" for j
  proof -
    from that have "c < j" "j mod batchSize = 0" by simp_all
    then show ?thesis using assms by (intro multiple_gap)
  qed
  show ?thesis
  proof (cases "c + batchSize < n")
    case True
    have "(c + batchSize) mod batchSize = 0" using assms by simp
    moreover have "c < c + batchSize" by (simp add: batchSize_def)
    ultimately have here: "(c + batchSize) mod batchSize = 0
        \<and> aborted_during c (ChunkStart (c + batchSize))"
      by simp
    have before: "\<forall>j<c + batchSize.
        \<not> (j mod batchSize = 0 \<and> aborted_during c (ChunkStart j))"
    proof (intro allI impI notI)
      fix j
      assume "j < c + batchSize"
        and "j mod batchSize = 0 \<and> aborted_during c (ChunkStart j)"
      then show False using gap [of j] by linarith
    qed
    have "List.find (\<lambda>j. j mod batchSize = 0 \<and> aborted_during c (ChunkStart j)) [0..<n]
        = Some (c + batchSize)"
      by (rule find_upt_first [OF True here before])
    then show ?thesis using True by (simp add: cancelled_at_def)
  next
    case False
    have "\<not> (\<exists>j. j \<in> set [0..<n] \<and> j mod batchSize = 0 \<and> aborted_during c (ChunkStart j))"
    proof
      assume "\<exists>j. j \<in> set [0..<n] \<and> j mod batchSize = 0 \<and> aborted_during c (ChunkStart j)"
      then obtain j where j: "j < n" "j mod batchSize = 0 \<and> aborted_during c (ChunkStart j)"
        by auto
      from gap [OF j(2)] show False using j(1) False by simp
    qed
    then have "List.find (\<lambda>j. j mod batchSize = 0 \<and> aborted_during c (ChunkStart j)) [0..<n]
        = None"
      unfolding find_None_iff by blast
    then show ?thesis using False by (simp add: cancelled_at_def)
  qed
qed

lemma dispatched_all:
  assumes "\<forall>j<m. \<not> signal (Dispatch j)"
  shows "dispatched signal m = [0..<m]"
  using assms by (simp add: dispatched_def)

lemma slots_all:
  assumes "\<forall>j<length descriptions. \<not> signal (Dispatch j)"
  shows "slots provider signal descriptions (length descriptions)
    = map (artwork provider descriptions) [0..<length descriptions]"
  using assms by (simp add: slots_def)

subsection \<open>The claims about \<open>generateAllImages\<close>\<close>

text \<open>
  C4. If the generation of symbol \<open>k\<close> fails on all three attempts (and the call is not
  cancelled), \<open>generateAllImages\<close> still returns: the array has one slot per description,
  slot \<open>k\<close> is \<open>null\<close>, symbol \<open>k\<close> is recorded in \<open>failed\<close> with the error of its last
  attempt, every item has completed, and every slot holds what its own symbol's attempts
  produced (\<open>artwork\<close>): the artwork of the first attempt that succeeds, or \<open>null\<close>.
\<close>

theorem generateAllImages_isolates_failures:
  assumes "\<forall>n. \<not> signal n"
    and "k < length descriptions"
    and "\<forall>attempt<3. isl (provider (descriptions ! k) k attempt)"
  shows "generateAllImages provider signal descriptions
           = Inr (map (artwork provider descriptions) [0..<length descriptions])
    \<and> artwork provider descriptions k = None
    \<and> (k, descriptions ! k, projl (provider (descriptions ! k) k 2))
         \<in> set (failed (snd (generateAllImages_run provider signal descriptions)))
    \<and> completed (snd (generateAllImages_run provider signal descriptions))
         = length descriptions"
proof -
  have "\<forall>c<length descriptions. c mod batchSize = 0 \<longrightarrow> \<not> signal (ChunkStart c)"
    using assms(1) by simp
  then obtain st where run: "generateAllImages_run provider signal descriptions = (None, st)"
    and st: "settled provider descriptions (set (dispatched signal (length descriptions))) st"
    using run_not_cancelled [of descriptions signal provider] by blast
  have d: "dispatched signal (length descriptions) = [0..<length descriptions]"
    using assms(1) by (simp add: dispatched_all)
  have s: "slots provider signal descriptions (length descriptions)
      = map (artwork provider descriptions) [0..<length descriptions]"
    using assms(1) by (simp add: slots_all)
  have "isl (provider (descriptions ! k) k 0)" "isl (provider (descriptions ! k) k 1)"
    "isl (provider (descriptions ! k) k 2)"
    using assms(3) by simp_all
  then have o: "outcome3 provider (descriptions ! k) k
      = Inl (projl (provider (descriptions ! k) k 2))"
    by (auto simp: outcome3_def isl_def)
  have "failure_of provider descriptions k
      = [(k, descriptions ! k, projl (provider (descriptions ! k) k 2))]"
    by (simp add: failure_of_def o)
  then have "(k, descriptions ! k, projl (provider (descriptions ! k) k 2))
      \<in> (\<Union>j\<in>set [0..<length descriptions]. set (failure_of provider descriptions j))"
    using assms(2) by (auto intro!: bexI [of _ k])
  then have f: "(k, descriptions ! k, projl (provider (descriptions ! k) k 2)) \<in> set (failed st)"
    using settled_dispatched(4) [OF st] unfolding d by simp
  have a: "artwork provider descriptions k = None"
    by (simp add: artwork_def o)
  have i: "images st = map (artwork provider descriptions) [0..<length descriptions]"
    using settled_dispatched(1) [OF st] s by simp
  have c: "completed st = length descriptions"
    using settled_dispatched(2) [OF st] unfolding d by simp
  show ?thesis
    using f a i c by (simp add: generateAllImages_def run)
qed

theorem generateAllImages_isolates_failures_witness:
  "(1::nat) < length [''sun'', ''moon'', ''star'']
    \<and> isl (failing_provider 1 ''moon'' 1 0)
    \<and> isl (failing_provider 1 ''moon'' 1 1)
    \<and> isl (failing_provider 1 ''moon'' 1 2)
    \<and> generateAllImages (failing_provider 1) (\<lambda>n. False) [''sun'', ''moon'', ''star'']
        = Inr [Some ''img:sun'', None, Some ''img:star'']
    \<and> (1, ''moon'', ''HTTP 429'')
        \<in> set (failed (snd (generateAllImages_run (failing_provider 1) (\<lambda>n. False)
                  [''sun'', ''moon'', ''star''])))
    \<and> completed (snd (generateAllImages_run (failing_provider 1) (\<lambda>n. False)
          [''sun'', ''moon'', ''star''])) = 3"
proof -
  have h1: "\<forall>n. \<not> (\<lambda>n::read_point. False) n" by simp
  have h2: "(1::nat) < length [''sun'', ''moon'', ''star'']" by simp
  have h3: "\<forall>attempt<3. isl (failing_provider 1 ([''sun'', ''moon'', ''star''] ! 1) 1 attempt)"
    by (simp add: failing_provider_def)
  note t = generateAllImages_isolates_failures
    [where signal = "\<lambda>n. False" and provider = "failing_provider 1" and k = 1
       and descriptions = "[''sun'', ''moon'', ''star'']", OF h1 h2 h3]
  show ?thesis
    using t by (simp add: upt_rec artwork_def outcome3_def failing_provider_def)
qed

text \<open>
  C7 as stated fails. A caller aborts while the only chunk, of two items, is in flight,
  say after one of the two has completed: every read of the signal from then on would
  find it aborted. Both items were dispatched before the abort and no chunk follows, so
  the signal is not read again: the call does not report a cancellation, it resolves
  with the ordinary result array.
\<close>

theorem generateAllImages_cancel_counterexample:
  "(1::nat) < length [''sun'', ''moon'']
    \<and> aborted_during 0 (ChunkStart batchSize)
    \<and> aborted_during 0 (Dispatch batchSize)
    \<and> generateAllImages echo_provider (aborted_during 0) [''sun'', ''moon'']
        = Inr [Some ''img:sun'', Some ''img:moon'']
    \<and> generateAllImages echo_provider (aborted_during 0) [''sun'', ''moon'']
        \<noteq> Inl ''Generation cancelled''"
proof -
  have "generateAllImages echo_provider (aborted_during 0) [''sun'', ''moon'']
      = Inr [Some ''img:sun'', Some ''img:moon'']"
    by code_simp
  then show ?thesis by (simp add: batchSize_def)
qed

text \<open>
  C7, amended. \<open>generateAllImages\<close> reads the signal at the start of each chunk and, for
  each item, at its pre-dispatch check, and nowhere else. The call rejects with
  \<open>Generation cancelled\<close> exactly when the check at the start of some chunk finds the
  signal aborted (\<open>cancelled_at\<close>). It stops at the first such chunk: no item of that
  chunk or of a later one is dispatched, and of the items before it exactly those whose
  pre-dispatch check found the signal clear (\<open>dispatched\<close>) have run to completion. If no
  start-of-chunk check finds the signal aborted, the call resolves with the ordinary
  result array, whatever the caller did in between: an abort while the last chunk is in
  flight is not reported. In both cases an item that was dispatched has its fate in its
  slot, in one call of \<open>onImageComplete\<close> and, if it failed, in \<open>failed\<close>, and it is
  counted in \<open>completed\<close>; an item that was not dispatched has a \<open>null\<close> slot and no call.
  The calls of \<open>onImageComplete\<close> and the entries of \<open>failed\<close> are stated up to their
  order, which is the order of completion.
\<close>

theorem generateAllImages_cancelled_at_chunk_start:
  "generateAllImages provider signal descriptions
     = (case cancelled_at signal (length descriptions) of
          Some c \<Rightarrow> Inl ''Generation cancelled''
        | None \<Rightarrow> Inr (slots provider signal descriptions (length descriptions)))
   \<and> images (snd (generateAllImages_run provider signal descriptions))
       = slots provider signal descriptions (reached signal (length descriptions))
   \<and> completed (snd (generateAllImages_run provider signal descriptions))
       = length (dispatched signal (reached signal (length descriptions)))
   \<and> mset (itemCalls (snd (generateAllImages_run provider signal descriptions)))
       = mset (map (event_of provider descriptions)
           (dispatched signal (reached signal (length descriptions))))
   \<and> set (failed (snd (generateAllImages_run provider signal descriptions)))
       = set (concat (map (failure_of provider descriptions)
           (dispatched signal (reached signal (length descriptions)))))"
proof (cases "cancelled_at signal (length descriptions)")
  case None
  then have r: "reached signal (length descriptions) = length descriptions"
    by (simp add: reached_def)
  obtain st where run: "generateAllImages_run provider signal descriptions = (None, st)"
    and st: "settled provider descriptions (set (dispatched signal (length descriptions))) st"
    using run_not_cancelled [OF cancelled_at_None [OF None], of provider] by blast
  show ?thesis
    using settled_dispatched [OF st]
    by (simp add: generateAllImages_def run None r)
next
  case (Some c)
  then have r: "reached signal (length descriptions) = c"
    by (simp add: reached_def)
  obtain st where
    run: "generateAllImages_run provider signal descriptions
      = (Some ''Generation cancelled'', st)"
    and st: "settled provider descriptions (set (dispatched signal c)) st"
    using run_cancelled [where ?c0.0 = c and signal = signal and provider = provider,
        OF cancelled_at_Some(1,3,2,4) [OF Some]]
    by blast
  show ?thesis
    using settled_dispatched [OF st]
    by (simp add: generateAllImages_def run Some r)
qed

theorem generateAllImages_cancelled_at_chunk_start_witness:
  "generateAllImages echo_provider (aborted_during 0) (replicate 12 ''sun'')
      = Inl ''Generation cancelled''
    \<and> images (snd (generateAllImages_run echo_provider (aborted_during 0)
         (replicate 12 ''sun''))) = replicate 10 (Some ''img:sun'') @ [None, None]
    \<and> completed (snd (generateAllImages_run echo_provider (aborted_during 0)
         (replicate 12 ''sun''))) = 10
    \<and> size (mset (itemCalls (snd (generateAllImages_run echo_provider (aborted_during 0)
         (replicate 12 ''sun''))))) = 10
    \<and> ItemComplete 10 (Some ''img:sun'') None
         \<notin> set (itemCalls (snd (generateAllImages_run echo_provider (aborted_during 0)
               (replicate 12 ''sun''))))
    \<and> generateAllImages echo_provider (aborted_during 0) (replicate 7 ''sun'')
        = Inr (replicate 7 (Some ''img:sun''))
    \<and> generateAllImages echo_provider (aborted_by_progress 0) [''sun'', ''moon'']
        = Inr [None, None]
    \<and> completed (snd (generateAllImages_run echo_provider (aborted_by_progress 0)
         [''sun'', ''moon''])) = 0"
proof -
  let ?twelve = "replicate 12 ''sun''" and ?seven = "replicate 7 ''sun''"
    and ?two = "[''sun'', ''moon'']"
  have k12: "cancelled_at (aborted_during 0) (length ?twelve) = Some 10"
    and k7: "cancelled_at (aborted_during 0) (length ?seven) = None"
    using cancelled_at_aborted_during [of 0 12] cancelled_at_aborted_during [of 0 7]
    by (simp_all add: batchSize_def)
  have k2: "cancelled_at (aborted_by_progress 0) (length ?two) = None"
    by code_simp
  have i12: "slots echo_provider (aborted_during 0) ?twelve
      (reached (aborted_during 0) (length ?twelve)) = replicate 10 (Some ''img:sun'') @ [None, None]"
    by code_simp
  have q12: "length (dispatched (aborted_during 0) (reached (aborted_during 0) (length ?twelve)))
      = 10"
    by code_simp
  have e12: "ItemComplete 10 (Some ''img:sun'') None
      \<notin> set (map (event_of echo_provider ?twelve)
            (dispatched (aborted_during 0) (reached (aborted_during 0) (length ?twelve))))"
    by code_simp
  have g7: "slots echo_provider (aborted_during 0) ?seven (length ?seven)
      = replicate 7 (Some ''img:sun'')"
    by code_simp
  have g2: "slots echo_provider (aborted_by_progress 0) ?two (length ?two) = [None, None]"
    by code_simp
  have q2: "length (dispatched (aborted_by_progress 0)
      (reached (aborted_by_progress 0) (length ?two))) = 0"
    by code_simp
  note t12 = generateAllImages_cancelled_at_chunk_start
    [of echo_provider "aborted_during 0" ?twelve]
  note t7 = generateAllImages_cancelled_at_chunk_start
    [of echo_provider "aborted_during 0" ?seven]
  note t2 = generateAllImages_cancelled_at_chunk_start
    [of echo_provider "aborted_by_progress 0" ?two]
  have a1: "generateAllImages echo_provider (aborted_during 0) ?twelve
      = Inl ''Generation cancelled''"
    using t12 [THEN conjunct1] unfolding k12 by simp
  have a2: "images (snd (generateAllImages_run echo_provider (aborted_during 0) ?twelve))
      = replicate 10 (Some ''img:sun'') @ [None, None]"
    using t12 [THEN conjunct2, THEN conjunct1] unfolding i12 .
  have a3: "completed (snd (generateAllImages_run echo_provider (aborted_during 0) ?twelve))
      = 10"
    using t12 [THEN conjunct2, THEN conjunct2, THEN conjunct1] unfolding q12 .
  note m = t12 [THEN conjunct2, THEN conjunct2, THEN conjunct2, THEN conjunct1]
  have a4: "size (mset (itemCalls
      (snd (generateAllImages_run echo_provider (aborted_during 0) ?twelve)))) = 10"
    unfolding m size_mset length_map q12 ..
  have a5: "ItemComplete 10 (Some ''img:sun'') None
      \<notin> set (itemCalls (snd (generateAllImages_run echo_provider (aborted_during 0) ?twelve)))"
    using e12 unfolding mset_eq_setD [OF m] .
  have a6: "generateAllImages echo_provider (aborted_during 0) ?seven
      = Inr (replicate 7 (Some ''img:sun''))"
    using t7 [THEN conjunct1] unfolding k7 g7 by simp
  have a7: "generateAllImages echo_provider (aborted_by_progress 0) ?two = Inr [None, None]"
    using t2 [THEN conjunct1] unfolding k2 g2 by simp
  have a8: "completed (snd (generateAllImages_run echo_provider (aborted_by_progress 0) ?two))
      = 0"
    using t2 [THEN conjunct2, THEN conjunct2, THEN conjunct1] unfolding q2 .
  show ?thesis
    using a1 a2 a3 a4 a5 a6 a7 a8 by blast
qed

section \<open>Properties of the admission gate\<close>

subsection \<open>The gate's operations\<close>

lemma cleanupTimestamps_simps:
  "maxConcurrent (cleanupTimestamps t rl) = maxConcurrent rl"
  "maxPerMinute (cleanupTimestamps t rl) = maxPerMinute rl"
  "activeCount (cleanupTimestamps t rl) = activeCount rl"
  "requestTimestamps (cleanupTimestamps t rl) = filter (\<lambda>ts. t - 60000 < ts) (requestTimestamps rl)"
  by (simp_all add: cleanupTimestamps_def)

lemma acquire_check_cases:
  obtains
    (ceiling) "maxConcurrent rl \<le> activeCount rl"
      "acquire_check t1 t2 rl = (Blocked, rl)"
  | (limited) "activeCount rl < maxConcurrent rl"
      "maxPerMinute rl \<le> int (length (requestTimestamps (cleanupTimestamps t1 rl)))"
      "acquire_check t1 t2 rl = (Blocked, cleanupTimestamps t1 rl)"
  | (admitted) "activeCount rl < maxConcurrent rl"
      "int (length (requestTimestamps (cleanupTimestamps t1 rl))) < maxPerMinute rl"
      "acquire_check t1 t2 rl =
         (Admitted, (cleanupTimestamps t1 rl)
            \<lparr>activeCount := activeCount rl + 1,
             requestTimestamps := requestTimestamps (cleanupTimestamps t1 rl) @ [t2]\<rparr>)"
proof (cases "maxConcurrent rl \<le> activeCount rl")
  case True
  then show ?thesis by (intro ceiling) (simp_all add: acquire_check_def)
next
  case False
  show ?thesis
  proof (cases "maxPerMinute rl \<le> int (length (requestTimestamps (cleanupTimestamps t1 rl)))")
    case True
    with False show ?thesis
      by (intro limited) (simp_all add: acquire_check_def isRateLimited_def Let_def cleanupTimestamps_simps)
  next
    case nl: False
    with False show ?thesis
      by (intro admitted)
        (simp_all add: acquire_check_def isRateLimited_def Let_def push_def cleanupTimestamps_simps)
  qed
qed

subsection \<open>Counting the calls in flight\<close>

lemma length_filter_update:
  assumes "i < length xs"
  shows "length (filter P (xs[i := y])) + (if P (xs ! i) then 1 else 0)
       = length (filter P xs) + (if P y then 1 else 0)"
proof -
  have "xs[i := y] = take i xs @ y # drop (Suc i) xs"
    using assms by (rule upd_conv_take_nth_drop)
  moreover have "xs = take i xs @ xs ! i # drop (Suc i) xs"
    using assms by (rule id_take_nth_drop)
  ultimately have "length (filter P (xs[i := y])) + (if P (xs ! i) then 1 else 0)
      = length (filter P (take i xs @ y # drop (Suc i) xs)) + (if P (xs ! i) then 1 else 0)"
    and "length (filter P xs)
      = length (filter P (take i xs @ xs ! i # drop (Suc i) xs))"
    by simp_all
  then show ?thesis by simp
qed

lemma conc_inv_init: "conc_inv (init n t)"
  by (simp add: conc_inv_def init_def rateLimiter_def RateLimiter_def inFlightCount_def)

lemma conc_inv_enter_gate:
  assumes "conc_inv s" "i < length (tasks s)" "\<not> in_flight (tasks s ! i)"
  shows "conc_inv (enter_gate i a t1 t2 s)"
proof (cases rule: acquire_check_cases [of "limiter s" t1 t2])
  case ceiling
  then show ?thesis
    using assms length_filter_update [OF assms(2), of in_flight "Polling a (t1 + 500)"]
    by (simp add: enter_gate_def conc_inv_def inFlightCount_def)
next
  case limited
  then show ?thesis
    using assms length_filter_update [OF assms(2), of in_flight "Polling a (t1 + 500)"]
    by (simp add: enter_gate_def conc_inv_def inFlightCount_def cleanupTimestamps_simps)
next
  case admitted
  then show ?thesis
    using assms length_filter_update [OF assms(2), of in_flight "InFlight a"]
    by (simp add: enter_gate_def conc_inv_def inFlightCount_def cleanupTimestamps_simps)
qed

lemma conc_inv_cleanup:
  "conc_inv s \<Longrightarrow> conc_inv (s\<lparr>limiter := cleanupTimestamps t (limiter s)\<rparr>)"
  by (simp add: conc_inv_def inFlightCount_def cleanupTimestamps_simps)

lemma in_flight_after_attempt: "\<not> in_flight (after_attempt a outcome now)"
  by (simp add: after_attempt_def split: sum.split)

lemma conc_inv_step:
  assumes "conc_inv s" "step e s = Some s'"
  shows "conc_inv s'"
proof (cases e)
  case (Enter i t1 t2)
  with assms(2) have i: "i < length (tasks s)" and s': "s' = enter_gate i (case tasks s ! i of Ready a \<Rightarrow> a | Backoff a w \<Rightarrow> a | _ \<Rightarrow> 0) t1 t2 s"
      and nf: "\<not> in_flight (tasks s ! i)"
    by (auto split: if_splits task.splits)
  show ?thesis unfolding s' using assms(1) i nf by (rule conc_inv_enter_gate)
next
  case (Wake i t0 t1 t2)
  with assms(2) obtain a w where i: "i < length (tasks s)" and p: "tasks s ! i = Polling a w"
      and s': "s' = enter_gate i a t1 t2 (s\<lparr>limiter := cleanupTimestamps t0 (limiter s)\<rparr>)"
    by (auto split: if_splits task.splits)
  have "conc_inv (s\<lparr>limiter := cleanupTimestamps t0 (limiter s)\<rparr>)"
    using assms(1) by (rule conc_inv_cleanup)
  then show ?thesis unfolding s' using i p by (intro conc_inv_enter_gate) simp_all
next
  case (Settle i outcome)
  with assms(2) obtain a where i: "i < length (tasks s)" and p: "tasks s ! i = InFlight a"
      and s': "s' = s\<lparr>limiter := release (limiter s),
                     tasks := (tasks s)[i := after_attempt a outcome (clock s)]\<rparr>"
    by (auto split: if_splits task.splits)
  show ?thesis
    using assms(1) length_filter_update [OF i, of in_flight "after_attempt a outcome (clock s)"]
    by (simp add: s' conc_inv_def inFlightCount_def release_def p in_flight_after_attempt)
next
  case (Status t)
  with assms(2) have s': "s' = s\<lparr>limiter := cleanupTimestamps t (limiter s), clock := t\<rparr>"
    by (auto simp: getStatus_def Let_def split: if_splits)
  show ?thesis
    using assms(1) by (simp add: s' conc_inv_def inFlightCount_def cleanupTimestamps_simps)
qed

lemma conc_inv_run:
  "conc_inv s \<Longrightarrow> run es s = Some s' \<Longrightarrow> conc_inv s'"
proof (induction es arbitrary: s)
  case Nil
  then show ?case by simp
next
  case (Cons e es)
  then show ?case by (auto split: option.splits dest: conc_inv_step)
qed

subsection \<open>The sliding window\<close>

lemma length_filter_mono:
  assumes "\<And>x. x \<in> set xs \<Longrightarrow> P x \<Longrightarrow> Q x"
  shows "length (filter P xs) \<le> length (filter Q xs)"
  using assms by (induction xs) auto

lemma rate_inv_init: "rate_inv (init n t)"
  by (simp add: rate_inv_def init_def rateLimiter_def RateLimiter_def startsInWindow_def)

lemma rate_inv_release:
  "rate_inv s \<Longrightarrow> rate_inv (s\<lparr>limiter := release (limiter s), tasks := ts\<rparr>)"
  by (simp add: rate_inv_def release_def startsInWindow_def)

lemma rate_inv_cleanup:
  assumes "rate_inv s" "clock s \<le> t"
  shows "rate_inv (s\<lparr>limiter := cleanupTimestamps t (limiter s), clock := t\<rparr>)"
proof -
  have "filter (\<lambda>ts. t' - 60000 < ts) (filter (\<lambda>ts. t - 60000 < ts) (requestTimestamps (limiter s)))
      = filter (\<lambda>ts. t' - 60000 < ts) (starts s)" if "t \<le> t'" for t'
  proof -
    have "filter (\<lambda>ts. t' - 60000 < ts) (filter (\<lambda>ts. t - 60000 < ts) (requestTimestamps (limiter s)))
        = filter (\<lambda>ts. t' - 60000 < ts) (requestTimestamps (limiter s))"
      using that by (auto simp: filter_filter intro!: filter_cong)
    also have "\<dots> = filter (\<lambda>ts. t' - 60000 < ts) (starts s)"
      using assms that by (simp add: rate_inv_def)
    finally show ?thesis .
  qed
  moreover have "list_all (\<lambda>ts. ts \<le> t) (starts s)"
    using assms by (auto simp: rate_inv_def list_all_iff)
  ultimately show ?thesis
    using assms(1) by (simp add: rate_inv_def cleanupTimestamps_simps startsInWindow_def)
qed

lemma rate_inv_admit:
  assumes "rate_inv s" "clock s \<le> t1" "t1 \<le> t2"
    and "int (length (requestTimestamps (cleanupTimestamps t1 (limiter s)))) < maxPerMinute (limiter s)"
  shows "rate_inv (s\<lparr>limiter := (cleanupTimestamps t1 (limiter s))
            \<lparr>activeCount := n,
             requestTimestamps := requestTimestamps (cleanupTimestamps t1 (limiter s)) @ [t2]\<rparr>,
          clock := t2, tasks := tks, starts := starts s @ [t2]\<rparr>)"
proof -
  have R: "maxPerMinute (limiter s) = 100" using assms(1) by (simp add: rate_inv_def)
  have J: "filter (\<lambda>ts. t - 60000 < ts) (requestTimestamps (limiter s))
      = filter (\<lambda>ts. t - 60000 < ts) (starts s)" if "clock s \<le> t" for t
    using assms(1) that by (simp add: rate_inv_def)
  have A: "ts \<le> clock s" if "ts \<in> set (starts s)" for ts
    using assms(1) that by (simp add: rate_inv_def list_all_iff)
  have W: "length (filter (\<lambda>ts. w - 60000 < ts \<and> ts \<le> w) (starts s)) \<le> 100" for w
    using assms(1) by (simp add: rate_inv_def startsInWindow_def)
  have few: "length (filter (\<lambda>ts. t1 - 60000 < ts) (starts s)) < 100"
    using assms(4) J [OF assms(2)] by (simp add: cleanupTimestamps_simps R)
  have J': "filter (\<lambda>ts. t - 60000 < ts) (filter (\<lambda>ts. t1 - 60000 < ts) (requestTimestamps (limiter s)))
      = filter (\<lambda>ts. t - 60000 < ts) (starts s)" if "t2 \<le> t" for t
  proof -
    have "filter (\<lambda>ts. t - 60000 < ts) (filter (\<lambda>ts. t1 - 60000 < ts) (requestTimestamps (limiter s)))
        = filter (\<lambda>ts. t - 60000 < ts) (requestTimestamps (limiter s))"
      using that assms(3) by (auto simp: filter_filter intro!: filter_cong)
    also have "\<dots> = filter (\<lambda>ts. t - 60000 < ts) (starts s)"
      using that assms(2,3) by (intro J) simp
    finally show ?thesis .
  qed
  have W': "length (filter (\<lambda>ts. w - 60000 < ts \<and> ts \<le> w) (starts s @ [t2])) \<le> 100" for w
  proof (cases "w - 60000 < t2 \<and> t2 \<le> w")
    case False
    then show ?thesis using W [of w] by auto
  next
    case True
    have "length (filter (\<lambda>ts. w - 60000 < ts \<and> ts \<le> w) (starts s))
        \<le> length (filter (\<lambda>ts. t1 - 60000 < ts) (starts s))"
      using True assms(3) by (intro length_filter_mono) simp
    then show ?thesis using few True by simp
  qed
  have A': "list_all (\<lambda>ts. ts \<le> t2) (starts s @ [t2])"
    using A assms(2,3) by (fastforce simp: list_all_iff)
  show ?thesis
    using R J' W' A' by (simp add: rate_inv_def cleanupTimestamps_simps startsInWindow_def)
qed

lemma rate_inv_enter_gate:
  assumes "rate_inv s" "clock s \<le> t1" "t1 \<le> t2"
  shows "rate_inv (enter_gate i a t1 t2 s)"
proof (cases rule: acquire_check_cases [of "limiter s" t1 t2])
  case ceiling
  have "rate_inv (s\<lparr>limiter := limiter s, clock := t1, tasks := (tasks s)[i := Polling a (t1 + 500)]\<rparr>)"
    using assms(1,2) by (auto simp: rate_inv_def startsInWindow_def list_all_iff)
  then show ?thesis by (simp add: enter_gate_def ceiling)
next
  case limited
  have "rate_inv (s\<lparr>limiter := cleanupTimestamps t1 (limiter s), clock := t1\<rparr>)"
    using assms(1,2) by (rule rate_inv_cleanup)
  then have "rate_inv (s\<lparr>limiter := cleanupTimestamps t1 (limiter s), clock := t1,
      tasks := (tasks s)[i := Polling a (t1 + 500)]\<rparr>)"
    by (simp add: rate_inv_def startsInWindow_def)
  then show ?thesis by (simp add: enter_gate_def limited)
next
  case admitted
  show ?thesis
    unfolding enter_gate_def admitted(3)
    using rate_inv_admit [OF assms admitted(2)] by simp
qed

lemma rate_inv_step:
  assumes "rate_inv s" "step e s = Some s'"
  shows "rate_inv s'"
proof (cases e)
  case (Enter i t1 t2)
  with assms(2) obtain a where t: "clock s \<le> t1" "t1 \<le> t2" and s': "s' = enter_gate i a t1 t2 s"
    by (auto split: if_splits task.splits)
  show ?thesis unfolding s' using assms(1) t by (rule rate_inv_enter_gate)
next
  case (Wake i t0 t1 t2)
  with assms(2) obtain a where t: "clock s \<le> t0" "t0 \<le> t1" "t1 \<le> t2"
      and s': "s' = enter_gate i a t1 t2 (s\<lparr>limiter := cleanupTimestamps t0 (limiter s)\<rparr>)"
    by (auto split: if_splits task.splits)
  have "rate_inv (s\<lparr>limiter := cleanupTimestamps t0 (limiter s), clock := t0\<rparr>)"
    using assms(1) t(1) by (rule rate_inv_cleanup)
  then have c: "rate_inv (s\<lparr>limiter := cleanupTimestamps t0 (limiter s), clock := t0\<rparr>)" .
  have e: "enter_gate i a t1 t2 (s\<lparr>limiter := cleanupTimestamps t0 (limiter s)\<rparr>)
      = enter_gate i a t1 t2 (s\<lparr>limiter := cleanupTimestamps t0 (limiter s), clock := t0\<rparr>)"
    by (simp add: enter_gate_def split: prod.split admission.split)
  show ?thesis
    unfolding s' e using c t by (intro rate_inv_enter_gate) simp_all
next
  case (Settle i outcome)
  with assms(2) obtain a where
      s': "s' = s\<lparr>limiter := release (limiter s),
                     tasks := (tasks s)[i := after_attempt a outcome (clock s)]\<rparr>"
    by (auto split: if_splits task.splits)
  show ?thesis unfolding s' using assms(1) by (rule rate_inv_release)
next
  case (Status t)
  with assms(2) have t: "clock s \<le> t"
    and s': "s' = s\<lparr>limiter := cleanupTimestamps t (limiter s), clock := t\<rparr>"
    by (auto simp: getStatus_def Let_def split: if_splits)
  show ?thesis unfolding s' using assms(1) t by (rule rate_inv_cleanup)
qed

lemma rate_inv_run:
  "rate_inv s \<Longrightarrow> run es s = Some s' \<Longrightarrow> rate_inv s'"
proof (induction es arbitrary: s)
  case Nil
  then show ?case by simp
next
  case (Cons e es)
  then show ?case by (auto split: option.splits dest: rate_inv_step)
qed

subsection \<open>The gate lets a caller in\<close>

text \<open>A caller is not kept waiting for ever: in a reachable state with fewer than ten
  calls in flight, a check made when every recorded call start is at least a minute old
  admits the caller.\<close>

lemma gate_admits:
  assumes "run events (init n t) = Some s" "inFlightCount s < 10"
    and "clock s \<le> t1" "list_all (\<lambda>ts. ts \<le> t1 - 60000) (starts s)"
  shows "fst (acquire_check t1 t2 (limiter s)) = Admitted"
proof -
  have c: "conc_inv s" using conc_inv_init assms(1) by (rule conc_inv_run)
  have r: "rate_inv s" using rate_inv_init assms(1) by (rule rate_inv_run)
  have "filter (\<lambda>ts. t1 - 60000 < ts) (requestTimestamps (limiter s))
      = filter (\<lambda>ts. t1 - 60000 < ts) (starts s)"
    using r assms(3) by (simp add: rate_inv_def)
  also have "\<dots> = []"
    using assms(4) by (auto simp: list_all_iff filter_empty_conv)
  finally have "requestTimestamps (cleanupTimestamps t1 (limiter s)) = []"
    by (simp add: cleanupTimestamps_simps)
  moreover have "maxPerMinute (limiter s) = 100" using r by (simp add: rate_inv_def)
  moreover have "activeCount (limiter s) < maxConcurrent (limiter s)"
    using c assms(2) by (simp add: conc_inv_def)
  ultimately show ?thesis
    by (simp add: acquire_check_def isRateLimited_def Let_def cleanupTimestamps_simps)
qed

subsection \<open>The gate at work\<close>

lemma eleven_callers_run: "run eleven_callers (init 11 0) \<noteq> None"
  by code_simp

lemma eleven_callers_last: "tasks (the (run eleven_callers (init 11 0))) ! 10 = Polling 0 511"
  by code_simp

lemma hundred_and_one_callers_run: "run hundred_and_one_callers (init 101 0) \<noteq> None"
  by code_simp

lemma hundred_and_one_callers_last:
  "tasks (the (run hundred_and_one_callers (init 101 0))) ! 100 = Polling 0 601"
  by code_simp

lemma hundred_and_one_callers_window:
  "startsInWindow 101 (the (run hundred_and_one_callers (init 101 0))) = 100"
  by code_simp

subsection \<open>The claims about the gate\<close>

text \<open>
  C5. In every state that an execution can reach, whatever the number of callers and
  the interleaving of their steps, at most 10 provider calls are in flight: the gate's
  \<open>activeCount\<close> is exactly the number of calls that have been admitted and not yet
  released, it never exceeds 10, and while it has reached \<open>maxConcurrent\<close> every
  evaluation of the loop condition of \<open>acquire\<close> blocks, leaving the gate unchanged.
\<close>

theorem at_most_ten_in_flight:
  assumes "run events (init n t) = Some s"
  shows "inFlightCount s \<le> 10
    \<and> activeCount (limiter s) = int (inFlightCount s)
    \<and> (\<forall>t1 t2. inFlightCount s = 10 \<longrightarrow>
          acquire_check t1 t2 (limiter s) = (Blocked, limiter s))"
proof -
  have inv: "conc_inv s"
    using conc_inv_init assms by (rule conc_inv_run)
  then have "acquire_check t1 t2 (limiter s) = (Blocked, limiter s)"
    if "inFlightCount s = 10" for t1 t2
    using that by (simp add: conc_inv_def acquire_check_def)
  then show ?thesis using inv by (simp add: conc_inv_def)
qed

theorem at_most_ten_in_flight_witness:
  "run eleven_callers (init 11 0) \<noteq> None
    \<and> tasks (the (run eleven_callers (init 11 0))) ! 10 = Polling 0 511
    \<and> inFlightCount (the (run eleven_callers (init 11 0))) \<le> 10
    \<and> activeCount (limiter (the (run eleven_callers (init 11 0))))
        = int (inFlightCount (the (run eleven_callers (init 11 0))))"
proof -
  from eleven_callers_run obtain s where s: "run eleven_callers (init 11 0) = Some s"
    by auto
  note t = at_most_ten_in_flight [OF s]
  have "inFlightCount (the (run eleven_callers (init 11 0))) \<le> 10
    \<and> activeCount (limiter (the (run eleven_callers (init 11 0))))
        = int (inFlightCount (the (run eleven_callers (init 11 0))))"
    using t by (simp add: s)
  then show ?thesis
    using eleven_callers_run eleven_callers_last by blast
qed

text \<open>
  C6. In every state that an execution can reach, under a clock that does not run
  backwards, no 60-second window \<open>(w - 60000, w]\<close> holds more than 100 of the call
  starts that \<open>acquire\<close> has recorded. And \<open>acquire\<close> admits a call, and records its start,
  only when fewer than 100 recorded call starts lie in the 60 seconds before the clock
  value at which it checks.
\<close>

theorem at_most_100_starts_per_window:
  assumes "run events (init n t) = Some s"
  shows "(\<forall>w. startsInWindow w s \<le> 100)
    \<and> (\<forall>t1 t2 rl. clock s \<le> t1 \<and> acquire_check t1 t2 (limiter s) = (Admitted, rl) \<longrightarrow>
          length (filter (\<lambda>ts. t1 - 60000 < ts) (starts s)) < 100
          \<and> requestTimestamps rl = filter (\<lambda>ts. t1 - 60000 < ts) (starts s) @ [t2])"
proof -
  have inv: "rate_inv s"
    using rate_inv_init assms by (rule rate_inv_run)
  have "length (filter (\<lambda>ts. t1 - 60000 < ts) (starts s)) < 100
      \<and> requestTimestamps rl = filter (\<lambda>ts. t1 - 60000 < ts) (starts s) @ [t2]"
    if "clock s \<le> t1" "acquire_check t1 t2 (limiter s) = (Admitted, rl)" for t1 t2 rl
  proof -
    have J: "filter (\<lambda>ts. t1 - 60000 < ts) (requestTimestamps (limiter s))
        = filter (\<lambda>ts. t1 - 60000 < ts) (starts s)"
      using inv that(1) by (simp add: rate_inv_def)
    have R: "maxPerMinute (limiter s) = 100" using inv by (simp add: rate_inv_def)
    show ?thesis
    proof (cases rule: acquire_check_cases [of "limiter s" t1 t2])
      case ceiling
      then show ?thesis using that(2) by simp
    next
      case limited
      then show ?thesis using that(2) by simp
    next
      case admitted
      then show ?thesis
        using that(2) J R by (auto simp: cleanupTimestamps_simps)
    qed
  qed
  moreover have "\<forall>w. startsInWindow w s \<le> 100"
    using inv by (simp add: rate_inv_def)
  ultimately show ?thesis by blast
qed

theorem at_most_100_starts_per_window_witness:
  "run hundred_and_one_callers (init 101 0) \<noteq> None
    \<and> tasks (the (run hundred_and_one_callers (init 101 0))) ! 100 = Polling 0 601
    \<and> startsInWindow 101 (the (run hundred_and_one_callers (init 101 0))) = 100
    \<and> (\<forall>w. startsInWindow w (the (run hundred_and_one_callers (init 101 0))) \<le> 100)"
proof -
  from hundred_and_one_callers_run
  obtain s where s: "run hundred_and_one_callers (init 101 0) = Some s"
    by auto
  note t = at_most_100_starts_per_window [OF s]
  have "\<forall>w. startsInWindow w (the (run hundred_and_one_callers (init 101 0))) \<le> 100"
    using t by (simp add: s)
  then show ?thesis
    using hundred_and_one_callers_run hundred_and_one_callers_last
      hundred_and_one_callers_window by blast
qed

end
